theory Spec2Isabelle
  imports Main "HOL-Library.Word"
begin

section \<open>The task run loop of pkg/sentry/kernel/task\_run.go\<close>

text \<open>
  The embedding follows \<^verbatim>\<open>Task.run\<close>, \<^verbatim>\<open>Task.doStop\<close> and
  \<^verbatim>\<open>runApp.execute\<close>. The task goroutine is sequential; everything it calls outside
  task\_run.go (the platform, the memory manager, signal delivery, syscall dispatch, logging)
  is a parameter: a call is recorded in a history, its effect on the task and its return value
  are given by an environment that sees the history so far, so that two calls of the same
  function may answer differently.
\<close>

subsection \<open>Values\<close>

text \<open>The run states task\_run.go names, the states of the exit path, and any other state
  (syscall and vsyscall states, ...).\<close>

datatype taskRunState =
  RunApp | RunInterrupt | RunExit | RunExitMain | RunExitNotify | RunOther nat

type_synonym Signal = int

text \<open>Signal numbers of pkg/abi/linux; \<^verbatim>\<open>platform.SignalInterrupt\<close> is \<^verbatim>\<open>linux.SIGCHLD\<close>.\<close>

definition SIGILL :: Signal where "SIGILL = 4"
definition SIGTRAP :: Signal where "SIGTRAP = 5"
definition SIGBUS :: Signal where "SIGBUS = 7"
definition SIGFPE :: Signal where "SIGFPE = 8"
definition SIGKILL :: Signal where "SIGKILL = 9"
definition SIGSEGV :: Signal where "SIGSEGV = 11"
definition SIGCHLD :: Signal where "SIGCHLD = 17"
definition SIGPROF :: Signal where "SIGPROF = 27"
definition SignalInterrupt :: Signal where "SignalInterrupt = SIGCHLD"

text \<open>Go \<^verbatim>\<open>error\<close> values: the three sentinels of package platform, and any other error.\<close>

datatype perror = ErrContextInterrupt | ErrContextSignal | ErrContextCPUPreempted | ErrOther nat

text \<open>The error of \<^verbatim>\<open>HandleUserFault\<close>: a \<^verbatim>\<open>*memmap.BusError\<close> or something else.\<close>

datatype faultErr = BusError | FaultErr nat

datatype SyscallRestartErrno = ERESTARTSYS | ERESTARTNOINTR | ERESTARTNOHAND | ERESTART_RESTARTBLOCK

datatype WaitStatus = WaitStatusExit int | WaitStatusTerminationSignal Signal

record AccessType =
  Read :: bool
  Write :: bool
  Execute :: bool

definition Any :: "AccessType \<Rightarrow> bool" where
  "Any a = (Read a \<or> Write a \<or> Execute a)"

record SignalInfo =
  Signo :: int
  Code :: int
  Addr :: "64 word"

text \<open>\<^verbatim>\<open>SignalInfoPriv(sig)\<close>: a signal sent by the sentry itself (code \<^verbatim>\<open>SI_KERNEL\<close>).\<close>

definition SignalInfoPriv :: "Signal \<Rightarrow> SignalInfo" where
  "SignalInfoPriv sig = \<lparr>Signo = sig, Code = 128, Addr = 0\<rparr>"

datatype TaskGoroutineState =
  TaskGoroutineNonexistent | TaskGoroutineStopped | TaskGoroutineRunningApp

subsection \<open>The task\<close>

text \<open>The fields task\_run.go reads or writes itself; \<open>rest\<close> stands for all the others.\<close>

record Task =
  stopCount :: int
  runState :: "taskRunState option"
  taskWorkCount :: int
  taskWork :: "nat list"
  haveSyscallReturn :: bool
  haveSavedSignalMask :: bool
  savedSignalMask :: "64 word"
  rseqPreempted :: bool
  rseqAddr :: "64 word"
  oldRSeqCPUAddr :: "64 word"
  rseqCPU :: "32 word"
  ptraceSinglestep :: bool
  liveTasks :: "32 word"
  rest :: nat

subsection \<open>Calls out of task\_run.go\<close>

datatype call =
    InterruptSelf
  | DoStop
  | DecLiveTasks
  | Interrupted
  | TaskWork nat
  | PullFullState
  | Warningf
  | Debugf
  | DebugDumpState
  | PrepareExit WaitStatus
  | PrepareGroupExit WaitStatus
  | RestartSyscallWithRestartBlock
  | RestartSyscall
  | SetSignalMask "64 word"
  | GetCPU
  | RseqCopyOutCPU
  | OldRSeqCopyOutCPU
  | ForceSignal Signal
  | SendSignal SignalInfo
  | SendExternalSignal SignalInfo
  | RseqInterrupt
  | SetSingleStep
  | ClearSingleStep
  | Switch
  | DoSyscall
  | DoVsyscall "64 word" nat
  | HandleUserFault "64 word" AccessType
  | LookupEmulate "64 word"
  | Activate
  | Deactivate
  | AccountTaskGoroutineEnter TaskGoroutineState
  | AccountTaskGoroutineLeave TaskGoroutineState
  | EndStopCondWait
  | RunningGoroutinesAdd int
  | GoroutineStoppedAdd int
  | ExecuteState taskRunState
  | GoroutineStoppedDone
  | LiveGoroutinesDone
  | Release
  | ZeroLiveTasksBroadcast
  | RunningGoroutinesDone

text \<open>A state of the task goroutine: the calls made so far, each with the task as it was
  when the call was made, and the task now.\<close>

type_synonym st = "(call \<times> Task) list \<times> Task"

record env =
  effect :: "st \<Rightarrow> call \<Rightarrow> Task"
  interrupted_ret :: "st \<Rightarrow> bool"
  PullFullState_ret :: "st \<Rightarrow> perror option"
  ArchReturn :: "st \<Rightarrow> 64 word"
  SyscallRestartErrorFromReturn :: "64 word \<Rightarrow> SyscallRestartErrno option"
  ExtractErrno :: "perror \<Rightarrow> int \<Rightarrow> int"
  GetCPU_ret :: "st \<Rightarrow> 32 word"
  rseqCopyOutCPU_ret :: "st \<Rightarrow> perror option"
  oldRSeqCopyOutCPU_ret :: "st \<Rightarrow> perror option"
  hasTracer :: "st \<Rightarrow> bool"
  ArchSingleStep :: "st \<Rightarrow> bool"
  Switch_ret :: "st \<Rightarrow> SignalInfo \<times> AccessType \<times> perror option"
  doSyscall_ret :: "st \<Rightarrow> taskRunState option"
  HandleUserFault_ret :: "st \<Rightarrow> faultErr option"
  LookupEmulate_ret :: "st \<Rightarrow> nat option"
  doVsyscall_ret :: "st \<Rightarrow> taskRunState option"
  execute_ret :: "st \<Rightarrow> taskRunState option"
  EndStopCondWait_ret :: "st \<Rightarrow> bool"

text \<open>Making a call: it is appended to the history and the environment gives the new task.\<close>

definition invoke :: "env \<Rightarrow> call \<Rightarrow> st \<Rightarrow> st" where
  "invoke e c s = (fst s @ [(c, snd s)], effect e s c)"

text \<open>A call that only reads (logging, \<^verbatim>\<open>hostcpu.GetCPU\<close>), and the statements the
  development counts (\<^verbatim>\<open>t.doStop()\<close>, \<^verbatim>\<open>ts.liveTasks--\<close>): recorded, the task unchanged.\<close>

definition observe :: "call \<Rightarrow> st \<Rightarrow> st" where
  "observe c s = (fst s @ [(c, snd s)], snd s)"

text \<open>An assignment to a field of the task.\<close>

definition assign :: "(Task \<Rightarrow> Task) \<Rightarrow> st \<Rightarrow> st" where
  "assign f s = (fst s, f (snd s))"

text \<open>Either the function goes on to its next statement, or it returns a run state
  (\<open>None\<close> is Go's nil interface value).\<close>

datatype flow = Proceed | Return "taskRunState option"

text \<open>Go's conversion \<^verbatim>\<open>int32(x)\<close> of an \<^verbatim>\<open>int\<close>.\<close>

definition int32 :: "int \<Rightarrow> int" where
  "int32 x = sint (word_of_int x :: 32 word)"

subsection \<open>\<^verbatim>\<open>runApp.execute\<close>, statement by statement\<close>

text \<open>Lines 160-172: the queued task work is taken off the task and run.\<close>

definition taskWorkStep :: "env \<Rightarrow> st \<Rightarrow> st" where
  "taskWorkStep e s =
     (if taskWorkCount (snd s) > 0 then
        let queue = taskWork (snd s);
            s1 = assign (\<lambda>t. t\<lparr>taskWork := [], taskWorkCount := 0\<rparr>) s
        in foldl (\<lambda>s' w. invoke e (TaskWork w) s') s1 queue
      else s)"

text \<open>Lines 180-197: an unconsumed syscall return.\<close>

definition restartStep :: "env \<Rightarrow> st \<Rightarrow> flow \<times> st" where
  "restartStep e s =
     (if haveSyscallReturn (snd s) then
        let s1 = invoke e PullFullState s in
        case PullFullState_ret e s of
          Some err \<Rightarrow>
            let s2 = observe Warningf s1;
                s3 = invoke e (PrepareExit (WaitStatusExit (int32 (ExtractErrno e err (- 1))))) s2
            in (Return (Some RunExit), s3)
        | None \<Rightarrow>
            let s2 = (case SyscallRestartErrorFromReturn e (ArchReturn e s1) of
                        Some sre \<Rightarrow>
                          if sre = ERESTART_RESTARTBLOCK
                          then invoke e RestartSyscallWithRestartBlock (observe Debugf s1)
                          else invoke e RestartSyscall (observe Debugf s1)
                      | None \<Rightarrow> s1)
            in (Proceed, assign (\<lambda>t. t\<lparr>haveSyscallReturn := False\<rparr>) s2)
      else (Proceed, s))"

text \<open>Lines 198-204: a saved signal mask.\<close>

definition maskStep :: "env \<Rightarrow> st \<Rightarrow> flow \<times> st" where
  "maskStep e s =
     (if haveSavedSignalMask (snd s) then
        let s1 = invoke e (SetSignalMask (savedSignalMask (snd s))) s;
            s2 = assign (\<lambda>t. t\<lparr>haveSavedSignalMask := False\<rparr>) s1;
            s3 = invoke e Interrupted s2
        in if interrupted_ret e s2 then (Return (Some RunInterrupt), s3) else (Proceed, s3)
      else (Proceed, s))"

text \<open>Lines 212-216 and 219-223: a failed copy-out.\<close>

definition rseqFail :: "env \<Rightarrow> st \<Rightarrow> flow \<times> st" where
  "rseqFail e s =
     (Return (Some RunApp),
      invoke e (SendSignal (SignalInfoPriv SIGSEGV)) (invoke e (ForceSignal SIGSEGV) (observe Debugf s)))"

text \<open>Lines 207-227: restartable sequences.\<close>

definition rseqStep :: "env \<Rightarrow> st \<Rightarrow> flow \<times> st" where
  "rseqStep e s =
     (if rseqPreempted (snd s) then
        let s1 = assign (\<lambda>t. t\<lparr>rseqPreempted := False\<rparr>) s in
        if rseqAddr (snd s1) \<noteq> 0 \<or> oldRSeqCPUAddr (snd s1) \<noteq> 0 then
          let s2 = observe GetCPU s1;
              s3 = assign (\<lambda>t. t\<lparr>rseqCPU := GetCPU_ret e s1\<rparr>) s2;
              s4 = invoke e RseqCopyOutCPU s3
          in case rseqCopyOutCPU_ret e s3 of
               Some err \<Rightarrow> rseqFail e s4
             | None \<Rightarrow>
                 let s5 = invoke e OldRSeqCopyOutCPU s4 in
                 (case oldRSeqCopyOutCPU_ret e s4 of
                    Some err \<Rightarrow> rseqFail e s5
                  | None \<Rightarrow> (Proceed, invoke e RseqInterrupt s5))
        else (Proceed, invoke e RseqInterrupt s1)
      else (Proceed, s))"

text \<open>Lines 325-348: the signal the platform reported, after fault handling.\<close>

definition deliver :: "env \<Rightarrow> Signal \<Rightarrow> SignalInfo \<Rightarrow> st \<Rightarrow> taskRunState option \<times> st" where
  "deliver e sig info s =
     (Some RunApp,
      if sig = SIGILL \<or> sig = SIGSEGV \<or> sig = SIGBUS \<or> sig = SIGFPE \<or> sig = SIGTRAP
      then invoke e (SendSignal info) (invoke e (ForceSignal sig) s)
      else if sig = SignalInterrupt then s
      else if sig = SIGPROF then s
      else invoke e (SendExternalSignal info) s)"

text \<open>Lines 276-348: \<^verbatim>\<open>case platform.ErrContextSignal\<close>.\<close>

definition contextSignal ::
  "env \<Rightarrow> SignalInfo \<Rightarrow> AccessType \<Rightarrow> st \<Rightarrow> taskRunState option \<times> st" where
  "contextSignal e info at s =
     (let sig = Signo info in
      if Any at then
        let addr = Addr info;
            s1 = invoke e (HandleUserFault addr at) s
        in case HandleUserFault_ret e s of
             None \<Rightarrow> (Some RunApp, s1)
           | Some ferr \<Rightarrow>
               let s2 = (if Execute at then observe (LookupEmulate addr) s1 else s1) in
               (case (if Execute at then LookupEmulate_ret e s2 else None) of
                  Some sysno \<Rightarrow> (doVsyscall_ret e s2, invoke e (DoVsyscall addr sysno) s2)
                | None \<Rightarrow>
                    let s3 = observe DebugDumpState (observe Debugf s2) in
                    if ferr = BusError
                    then deliver e SIGBUS (info\<lparr>Signo := SIGBUS\<rparr>) s3
                    else deliver e sig info s3)
      else deliver e sig info s)"

text \<open>Lines 266-361: \<^verbatim>\<open>switch err\<close>.\<close>

definition dispatch ::
  "env \<Rightarrow> SignalInfo \<Rightarrow> AccessType \<Rightarrow> perror option \<Rightarrow> st \<Rightarrow> taskRunState option \<times> st" where
  "dispatch e info at err s =
     (case err of
        None \<Rightarrow> (doSyscall_ret e s, invoke e DoSyscall s)
      | Some ErrContextInterrupt \<Rightarrow> (Some RunApp, s)
      | Some ErrContextSignal \<Rightarrow> contextSignal e info at s
      | Some ErrContextCPUPreempted \<Rightarrow> (Some RunApp, assign (\<lambda>t. t\<lparr>rseqPreempted := True\<rparr>) s)
      | Some (ErrOther x) \<Rightarrow>
          (Some RunExit,
           invoke e (PrepareGroupExit (WaitStatusTerminationSignal SIGKILL)) (observe Warningf s)))"

text \<open>Lines 240-248: forcing the single-step flag for a tracer.\<close>

definition singleStepPrologue :: "env \<Rightarrow> st \<Rightarrow> bool \<times> st" where
  "singleStepPrologue e s =
     (if hasTracer e s \<and> ptraceSinglestep (snd s)
      then (\<not> ArchSingleStep e s, invoke e SetSingleStep s)
      else (False, s))"

text \<open>Lines 259-264: a traced task pulls the full state; a failure replaces \<^verbatim>\<open>err\<close>.\<close>

definition tracerPull :: "env \<Rightarrow> perror option \<Rightarrow> st \<Rightarrow> perror option \<times> st" where
  "tracerPull e err s =
     (if hasTracer e s then
        (case PullFullState_ret e s of
           Some e' \<Rightarrow> (Some e', observe Warningf (invoke e PullFullState s))
         | None \<Rightarrow> (err, invoke e PullFullState s))
      else (err, s))"

text \<open>Lines 240-258: the switch into the application, with its result.\<close>

definition platformSwitch ::
  "env \<Rightarrow> st \<Rightarrow> (SignalInfo \<times> AccessType \<times> perror option) \<times> st" where
  "platformSwitch e s =
     (let (clearSinglestep, s1) = singleStepPrologue e s;
          s2 = invoke e (AccountTaskGoroutineEnter TaskGoroutineRunningApp) s1;
          s3 = invoke e Switch s2;
          s4 = invoke e (AccountTaskGoroutineLeave TaskGoroutineRunningApp) s3
      in (Switch_ret e s2, if clearSinglestep then invoke e ClearSingleStep s4 else s4))"

text \<open>Lines 240-362: the switch and what follows.\<close>

definition switchStep :: "env \<Rightarrow> st \<Rightarrow> taskRunState option \<times> st" where
  "switchStep e s =
     (case platformSwitch e s of
        ((info, at, err), s5) \<Rightarrow>
          (case tracerPull e err s5 of
             (err', s6) \<Rightarrow> dispatch e info at err' s6))"

text \<open>Lines 151-362: \<^verbatim>\<open>runApp.execute\<close>.\<close>

definition runApp_execute :: "env \<Rightarrow> st \<Rightarrow> taskRunState option \<times> st" where
  "runApp_execute e s =
     (let s0 = invoke e Interrupted s in
      if interrupted_ret e s then (Some RunInterrupt, s0)
      else
        case restartStep e (taskWorkStep e s0) of
          (Return r, s2) \<Rightarrow> (r, s2)
        | (Proceed, s2) \<Rightarrow>
            (case maskStep e s2 of
               (Return r, s3) \<Rightarrow> (r, s3)
             | (Proceed, s3) \<Rightarrow>
                 (case rseqStep e s3 of
                    (Return r, s4) \<Rightarrow> (r, s4)
                  | (Proceed, s4) \<Rightarrow> switchStep e s4)))"

subsection \<open>\<^verbatim>\<open>Task.doStop\<close> and \<^verbatim>\<open>Task.run\<close>\<close>

text \<open>How a run of the task goroutine ends within a number of loop iterations: it returned,
  it waits for ever on \<^verbatim>\<open>endStopCond\<close>, the iterations were not enough, or it called
  \<^verbatim>\<open>execute\<close> on a nil run state.\<close>

datatype outcome = Done st | Blocked st | OutOfFuel st | Panicked st

fun state_of :: "outcome \<Rightarrow> st" where
  "state_of (Done s) = s"
| "state_of (Blocked s) = s"
| "state_of (OutOfFuel s) = s"
| "state_of (Panicked s) = s"

text \<open>Lines 140-142: the wait; while the task waits other goroutines change it.\<close>

fun waitLoop :: "env \<Rightarrow> nat \<Rightarrow> st \<Rightarrow> outcome" where
  "waitLoop e 0 s = (if stopCount (snd s) > 0 then OutOfFuel s else Done s)"
| "waitLoop e (Suc n) s =
     (if stopCount (snd s) > 0 then
        (if EndStopCondWait_ret e s then waitLoop e n (invoke e EndStopCondWait s)
         else Blocked (observe EndStopCondWait s))
      else Done s)"

text \<open>Lines 124-143; the deferred calls run in reverse order when the loop is left.\<close>

definition doStop :: "env \<Rightarrow> nat \<Rightarrow> st \<Rightarrow> outcome" where
  "doStop e n s =
     (let s0 = observe DoStop s in
      if stopCount (snd s0) = 0 then Done s0
      else
        let s1 = invoke e Deactivate s0;
            s2 = invoke e (AccountTaskGoroutineEnter TaskGoroutineStopped) s1;
            s3 = invoke e (RunningGoroutinesAdd (- 1)) s2;
            s4 = invoke e (GoroutineStoppedAdd (- 1)) s3
        in case waitLoop e n s4 of
             Done s5 \<Rightarrow>
               Done (invoke e Activate
                      (invoke e (AccountTaskGoroutineLeave TaskGoroutineStopped)
                        (invoke e (RunningGoroutinesAdd 1)
                          (invoke e (GoroutineStoppedAdd 1) s5))))
           | r \<Rightarrow> r)"

text \<open>Line 97: \<^verbatim>\<open>t.runState.execute(t)\<close>. Only \<^verbatim>\<open>runApp.execute\<close> is in task\_run.go;
  the other states are the environment's.\<close>

definition execute :: "env \<Rightarrow> taskRunState \<Rightarrow> st \<Rightarrow> taskRunState option \<times> st" where
  "execute e r s =
     (if r = RunApp then runApp_execute e (observe (ExecuteState RunApp) s)
      else (execute_ret e s, invoke e (ExecuteState r) s))"

text \<open>Lines 99-115: the task goroutine exits.\<close>

definition teardown :: "env \<Rightarrow> st \<Rightarrow> st" where
  "teardown e s =
     (let s1 = invoke e (AccountTaskGoroutineEnter TaskGoroutineNonexistent) s;
          s2 = invoke e GoroutineStoppedDone s1;
          s3 = invoke e LiveGoroutinesDone s2;
          s4 = invoke e Release s3;
          s5 = assign (\<lambda>t. t\<lparr>liveTasks := liveTasks t - 1\<rparr>) (observe DecLiveTasks s4);
          s6 = (if liveTasks (snd s5) = 0 then invoke e ZeroLiveTasksBroadcast s5 else s5)
      in invoke e RunningGoroutinesDone s6)"

text \<open>Lines 85-120: the loop, at most \<open>n\<close> iterations of it.\<close>

fun runLoop :: "env \<Rightarrow> nat \<Rightarrow> st \<Rightarrow> outcome" where
  "runLoop e 0 s = OutOfFuel s"
| "runLoop e (Suc n) s =
     (case doStop e n s of
        Done s1 \<Rightarrow>
          (case runState (snd s1) of
             None \<Rightarrow> Panicked s1
           | Some r \<Rightarrow>
               (case execute e r s1 of
                  (next, s2) \<Rightarrow>
                    let s3 = assign (\<lambda>t. t\<lparr>runState := next\<rparr>) s2 in
                    if next = None then Done (teardown e s3) else runLoop e n s3))
      | r \<Rightarrow> r)"

text \<open>Lines 59-121: \<^verbatim>\<open>Task.run\<close>, from a task with no history.\<close>

definition run :: "env \<Rightarrow> nat \<Rightarrow> Task \<Rightarrow> outcome" where
  "run e n t = runLoop e n (invoke e InterruptSelf (invoke e Activate ([], t)))"

subsection \<open>Reading a history\<close>

text \<open>The calls made from state \<open>s\<close> to a later state \<open>s'\<close>, with and without the task
  each call saw.\<close>

definition since :: "st \<Rightarrow> st \<Rightarrow> (call \<times> Task) list" where
  "since s s' = drop (length (fst s)) (fst s')"

definition calls_since :: "st \<Rightarrow> st \<Rightarrow> call list" where
  "calls_since s s' = map fst (since s s')"

text \<open>\<open>s'\<close> continues the history of \<open>s\<close>, and every call made in between satisfies \<open>P\<close>.\<close>

definition extends :: "(call \<Rightarrow> bool) \<Rightarrow> st \<Rightarrow> st \<Rightarrow> bool" where
  "extends P s s' =
     (take (length (fst s)) (fst s') = fst s \<and> list_all (\<lambda>x. P (fst x)) (since s s'))"

subsection \<open>A quiet environment and a fresh task, to evaluate the definitions on\<close>

definition task0 :: Task where
  "task0 = \<lparr>stopCount = 0, runState = Some RunApp, taskWorkCount = 0, taskWork = [],
     haveSyscallReturn = False, haveSavedSignalMask = False, savedSignalMask = 0,
     rseqPreempted = False, rseqAddr = 0, oldRSeqCPUAddr = 0, rseqCPU = 0,
     ptraceSinglestep = False, liveTasks = 1, rest = 0\<rparr>"

text \<open>No call changes the task, nothing is pending, every call succeeds, the platform reports
  a syscall, and the exit path is \<^verbatim>\<open>runExit\<close>, \<^verbatim>\<open>runExitMain\<close>, \<^verbatim>\<open>runExitNotify\<close>, nil.\<close>

definition env0 :: env where
  "env0 = \<lparr>effect = (\<lambda>s c. snd s),
     interrupted_ret = (\<lambda>s. False),
     PullFullState_ret = (\<lambda>s. None),
     ArchReturn = (\<lambda>s. 0),
     SyscallRestartErrorFromReturn = (\<lambda>r. None),
     ExtractErrno = (\<lambda>err d. 14),
     GetCPU_ret = (\<lambda>s. 3),
     rseqCopyOutCPU_ret = (\<lambda>s. None),
     oldRSeqCopyOutCPU_ret = (\<lambda>s. None),
     hasTracer = (\<lambda>s. False),
     ArchSingleStep = (\<lambda>s. False),
     Switch_ret = (\<lambda>s. (\<lparr>Signo = 0, Code = 0, Addr = 0\<rparr>,
                          \<lparr>Read = False, Write = False, Execute = False\<rparr>, None)),
     doSyscall_ret = (\<lambda>s. Some RunApp),
     HandleUserFault_ret = (\<lambda>s. None),
     LookupEmulate_ret = (\<lambda>s. None),
     doVsyscall_ret = (\<lambda>s. Some RunApp),
     execute_ret = (\<lambda>s. if runState (snd s) = Some RunExit then Some RunExitMain
                         else if runState (snd s) = Some RunExitMain then Some RunExitNotify
                         else if runState (snd s) = Some RunExitNotify then None
                         else Some RunApp),
     EndStopCondWait_ret = (\<lambda>s. True)\<rparr>"

subsection \<open>Which calls \<^verbatim>\<open>runApp.execute\<close> makes\<close>

text \<open>The calls of lines 151-227, before the switch, and the calls of the whole function.\<close>

fun entryCall :: "call \<Rightarrow> bool" where
  "entryCall Interrupted = True"
| "entryCall (TaskWork w) = True"
| "entryCall PullFullState = True"
| "entryCall Warningf = True"
| "entryCall Debugf = True"
| "entryCall (PrepareExit w) = True"
| "entryCall RestartSyscallWithRestartBlock = True"
| "entryCall RestartSyscall = True"
| "entryCall (SetSignalMask m) = True"
| "entryCall GetCPU = True"
| "entryCall RseqCopyOutCPU = True"
| "entryCall OldRSeqCopyOutCPU = True"
| "entryCall (ForceSignal sig) = True"
| "entryCall (SendSignal info) = True"
| "entryCall RseqInterrupt = True"
| "entryCall _ = False"

fun appCall :: "call \<Rightarrow> bool" where
  "appCall SetSingleStep = True"
| "appCall ClearSingleStep = True"
| "appCall Switch = True"
| "appCall (AccountTaskGoroutineEnter g) = (g = TaskGoroutineRunningApp)"
| "appCall (AccountTaskGoroutineLeave g) = (g = TaskGoroutineRunningApp)"
| "appCall DoSyscall = True"
| "appCall (DoVsyscall a n) = True"
| "appCall (HandleUserFault a at) = True"
| "appCall (LookupEmulate a) = True"
| "appCall DebugDumpState = True"
| "appCall (SendExternalSignal info) = True"
| "appCall (PrepareGroupExit w) = True"
| "appCall c = entryCall c"

subsection \<open>Where an entry into \<^verbatim>\<open>runApp.execute\<close> has got to\<close>

text \<open>The state in which line 180 is reached (the entry check answered false and the task
  work has run), in which line 198, line 207 and line 240 are reached; \<open>None\<close> when the
  function has returned before.\<close>

definition atLine180 :: "env \<Rightarrow> st \<Rightarrow> st option" where
  "atLine180 e s =
     (if interrupted_ret e s then None else Some (taskWorkStep e (invoke e Interrupted s)))"

definition atLine198 :: "env \<Rightarrow> st \<Rightarrow> st option" where
  "atLine198 e s =
     (case atLine180 e s of
        None \<Rightarrow> None
      | Some s1 \<Rightarrow> (case restartStep e s1 of (Proceed, s2) \<Rightarrow> Some s2 | (Return r, s2) \<Rightarrow> None))"

definition atLine207 :: "env \<Rightarrow> st \<Rightarrow> st option" where
  "atLine207 e s =
     (case atLine198 e s of
        None \<Rightarrow> None
      | Some s2 \<Rightarrow> (case maskStep e s2 of (Proceed, s3) \<Rightarrow> Some s3 | (Return r, s3) \<Rightarrow> None))"

definition atLine240 :: "env \<Rightarrow> st \<Rightarrow> st option" where
  "atLine240 e s =
     (case atLine207 e s of
        None \<Rightarrow> None
      | Some s3 \<Rightarrow> (case rseqStep e s3 of (Proceed, s4) \<Rightarrow> Some s4 | (Return r, s4) \<Rightarrow> None))"

text \<open>The state in which line 199 has restored the saved mask and cleared the flag, and the
  state in which line 211 calls \<^verbatim>\<open>rseqCopyOutCPU\<close>.\<close>

definition maskRestored :: "env \<Rightarrow> st \<Rightarrow> st" where
  "maskRestored e s =
     assign (\<lambda>t. t\<lparr>haveSavedSignalMask := False\<rparr>)
       (invoke e (SetSignalMask (savedSignalMask (snd s))) s)"

definition beforeCopyOut :: "env \<Rightarrow> st \<Rightarrow> st" where
  "beforeCopyOut e s =
     (let s1 = assign (\<lambda>t. t\<lparr>rseqPreempted := False\<rparr>) s
      in assign (\<lambda>t. t\<lparr>rseqCPU := GetCPU_ret e s1\<rparr>) (observe GetCPU s1))"

text \<open>The call that makes the whole thread group exit.\<close>

fun isGroupExit :: "call \<Rightarrow> bool" where
  "isGroupExit (PrepareGroupExit w) = True"
| "isGroupExit _ = False"

text \<open>The values of \<^verbatim>\<open>err\<close> that the \<^verbatim>\<open>switch\<close> of line 266 names; the others reach
  \<^verbatim>\<open>default\<close>.\<close>

fun knownOutcome :: "perror option \<Rightarrow> bool" where
  "knownOutcome None = True"
| "knownOutcome (Some ErrContextInterrupt) = True"
| "knownOutcome (Some ErrContextSignal) = True"
| "knownOutcome (Some ErrContextCPUPreempted) = True"
| "knownOutcome (Some (ErrOther x)) = False"

subsection \<open>Reading a run of the task goroutine\<close>

text \<open>The states after \<^verbatim>\<open>runExit\<close> on the way to the end of the task goroutine.\<close>

fun exitPath :: "taskRunState \<Rightarrow> bool" where
  "exitPath RunExit = True"
| "exitPath RunExitMain = True"
| "exitPath RunExitNotify = True"
| "exitPath _ = False"

fun isDone :: "outcome \<Rightarrow> bool" where
  "isDone (Done s) = True"
| "isDone _ = False"

text \<open>A property of the stop count and the run state of the task in a state.\<close>

definition keeps :: "(int \<Rightarrow> taskRunState option \<Rightarrow> bool) \<Rightarrow> st \<Rightarrow> bool" where
  "keeps P s = P (stopCount (snd s)) (runState (snd s))"

text \<open>No call out of task\_run.go invalidates the property.\<close>

definition preserved :: "env \<Rightarrow> (int \<Rightarrow> taskRunState option \<Rightarrow> bool) \<Rightarrow> bool" where
  "preserved e P = (\<forall>s c. keeps P s \<longrightarrow> keeps P (invoke e c s))"

text \<open>
  Where the task goroutine is with respect to the stop gate: outside the loop or between
  two iterations (\<open>Idle\<close>), in \<^verbatim>\<open>doStop\<close> having just read the stop count
  (\<open>Checking\<close>), in \<^verbatim>\<open>doStop\<close> with a stop count that was not zero (\<open>Waiting\<close>), in
  \<^verbatim>\<open>doStop\<close> after the wait (\<open>Open\<close>), in \<^verbatim>\<open>execute\<close> or past it (\<open>InExec\<close>).
\<close>

datatype phase = Idle | Checking | Waiting | Open | InExec

text \<open>The calls \<^verbatim>\<open>doStop\<close> makes besides the wait and the two the gate is read from.\<close>

fun stopCall :: "call \<Rightarrow> bool" where
  "stopCall (AccountTaskGoroutineEnter g) = (g = TaskGoroutineStopped)"
| "stopCall (AccountTaskGoroutineLeave g) = (g = TaskGoroutineStopped)"
| "stopCall (RunningGoroutinesAdd k) = True"
| "stopCall Activate = True"
| "stopCall _ = False"

text \<open>
  One call of the history, seen by the gate; \<open>None\<close> when the call is out of place:
  \<^item> \<^verbatim>\<open>doStop\<close> begins an iteration, once;
  \<^item> \<^verbatim>\<open>execute\<close> follows a \<^verbatim>\<open>doStop\<close> that read a stop count of zero, at once or after
    the wait;
  \<^item> the task waits only in \<^verbatim>\<open>doStop\<close>, and only on a positive stop count; it leaves the
    wait on a stop count of zero;
  \<^item> the platform is switched into only in \<^verbatim>\<open>execute\<close>;
  \<^item> between \<^verbatim>\<open>doStop\<close> and \<^verbatim>\<open>execute\<close> only the calls of \<^verbatim>\<open>doStop\<close> are made.
\<close>

fun gate_step :: "phase option \<Rightarrow> call \<times> Task \<Rightarrow> phase option" where
  "gate_step None x = None"
| "gate_step (Some p) (DoStop, t) = (if p = Idle \<or> p = InExec then Some Checking else None)"
| "gate_step (Some p) (ExecuteState r, t) =
     (if (p = Checking \<and> stopCount t = 0) \<or> p = Open then Some InExec else None)"
| "gate_step (Some p) (Deactivate, t) =
     (if p = Checking \<and> stopCount t \<noteq> 0 then Some Waiting else None)"
| "gate_step (Some p) (EndStopCondWait, t) =
     (if p = Waiting \<and> stopCount t > 0 then Some Waiting else None)"
| "gate_step (Some p) (GoroutineStoppedAdd k, t) =
     (if p = Waiting then (if k = 1 then (if stopCount t = 0 then Some Open else None)
                           else Some Waiting)
      else None)"
| "gate_step (Some p) (Switch, t) = (if p = InExec then Some InExec else None)"
| "gate_step (Some p) (c, t) =
     (if p = Idle \<or> p = InExec then Some p
      else if (p = Waiting \<or> p = Open) \<and> stopCall c then Some p
      else None)"

definition gate :: "(call \<times> Task) list \<Rightarrow> phase option" where
  "gate h = foldl gate_step (Some Idle) h"

text \<open>The calls of \<^verbatim>\<open>doStop\<close>, and the calls of lines 99-111.\<close>

fun doStopCall :: "call \<Rightarrow> bool" where
  "doStopCall DoStop = True"
| "doStopCall Deactivate = True"
| "doStopCall EndStopCondWait = True"
| "doStopCall (GoroutineStoppedAdd k) = True"
| "doStopCall c = stopCall c"

fun teardownCall :: "call \<Rightarrow> bool" where
  "teardownCall (AccountTaskGoroutineEnter g) = (g = TaskGoroutineNonexistent)"
| "teardownCall GoroutineStoppedDone = True"
| "teardownCall LiveGoroutinesDone = True"
| "teardownCall Release = True"
| "teardownCall DecLiveTasks = True"
| "teardownCall ZeroLiveTasksBroadcast = True"
| "teardownCall RunningGoroutinesDone = True"
| "teardownCall _ = False"

text \<open>The task is on the exit path, and the environment's states keep it there: a state of
  the exit path is followed by another one or by the end of the task goroutine.\<close>

definition onExitPath :: "int \<Rightarrow> taskRunState option \<Rightarrow> bool" where
  "onExitPath c r = (case r of Some x \<Rightarrow> exitPath x | None \<Rightarrow> False)"

definition exitStays :: "env \<Rightarrow> bool" where
  "exitStays e =
     (\<forall>s. keeps onExitPath s \<longrightarrow>
          (case execute_ret e s of None \<Rightarrow> True | Some r \<Rightarrow> exitPath r))"

text \<open>The states of the exit path in the order they are gone through, and an environment
  whose exit states only go forward in that order.\<close>

fun exitRank :: "taskRunState \<Rightarrow> nat" where
  "exitRank RunExit = 3"
| "exitRank RunExitMain = 2"
| "exitRank RunExitNotify = 1"
| "exitRank _ = 0"

definition exitAdvances :: "env \<Rightarrow> bool" where
  "exitAdvances e =
     (\<forall>s. case runState (snd s) of
            None \<Rightarrow> True
          | Some r \<Rightarrow>
              exitPath r \<longrightarrow>
                (case execute_ret e s of
                   None \<Rightarrow> True
                 | Some r' \<Rightarrow> exitPath r' \<and> exitRank r' < exitRank r))"

text \<open>The stop count is zero.\<close>

definition notStopped :: "int \<Rightarrow> taskRunState option \<Rightarrow> bool" where
  "notStopped c r = (c = 0)"

text \<open>The stop count is not negative.\<close>

definition nonNegative :: "int \<Rightarrow> taskRunState option \<Rightarrow> bool" where
  "nonNegative c r = (0 \<le> c)"

text \<open>A task goroutine that waits for ever is in \<^verbatim>\<open>doStop\<close>: its last call is the wait on
  \<^verbatim>\<open>endStopCond\<close>, made with a positive stop count.\<close>

fun blockedInWait :: "outcome \<Rightarrow> bool" where
  "blockedInWait (Blocked s) =
     (gate (fst s) = Some Waiting \<and> fst s \<noteq> [] \<and> fst (last (fst s)) = EndStopCondWait \<and>
      0 < stopCount (snd (last (fst s))))"
| "blockedInWait _ = True"

section \<open>Properties\<close>

subsection \<open>Histories\<close>

lemma fst_invoke [simp]: "fst (invoke e c s) = fst s @ [(c, snd s)]"
  by (simp add: invoke_def)

lemma snd_invoke [simp]: "snd (invoke e c s) = effect e s c"
  by (simp add: invoke_def)

lemma fst_observe [simp]: "fst (observe c s) = fst s @ [(c, snd s)]"
  by (simp add: observe_def)

lemma snd_observe [simp]: "snd (observe c s) = snd s"
  by (simp add: observe_def)

lemma fst_assign [simp]: "fst (assign f s) = fst s"
  by (simp add: assign_def)

lemma snd_assign [simp]: "snd (assign f s) = f (snd s)"
  by (simp add: assign_def)

lemma since_self [simp]: "since s s = []"
  by (simp add: since_def)

lemma since_append: "fst s' = fst s @ evs \<Longrightarrow> since s s' = evs"
  by (simp add: since_def)

lemmas signal_defs =
  SIGILL_def SIGTRAP_def SIGBUS_def SIGFPE_def SIGKILL_def SIGSEGV_def SIGCHLD_def
  SIGPROF_def SignalInterrupt_def

subsection \<open>The interrupt check on entry\<close>

text \<open>
  Claim C2. When \<^verbatim>\<open>t.interrupted()\<close> answers true on entry to \<^verbatim>\<open>runApp.execute\<close>,
  the function returns \<^verbatim>\<open>runInterrupt\<close> at once: the only call it has made is that check,
  so no task work has run, no syscall restart or signal mask has been processed and the
  platform has not been switched into; the task is as the check left it.
\<close>

theorem interrupted_entry_returns_RunInterrupt:
  "interrupted_ret e s \<Longrightarrow>
     fst (runApp_execute e s) = Some RunInterrupt \<and>
     calls_since s (snd (runApp_execute e s)) = [Interrupted] \<and>
     snd (snd (runApp_execute e s)) = effect e s Interrupted"
  by (simp add: runApp_execute_def calls_since_def since_def)

theorem interrupted_entry_returns_RunInterrupt_witness:
  "interrupted_ret (env0\<lparr>interrupted_ret := (\<lambda>s. True)\<rparr>)
       ([], task0\<lparr>taskWork := [7], taskWorkCount := 1, haveSyscallReturn := True,
                  haveSavedSignalMask := True\<rparr>) \<and>
   runApp_execute (env0\<lparr>interrupted_ret := (\<lambda>s. True)\<rparr>)
       ([], task0\<lparr>taskWork := [7], taskWorkCount := 1, haveSyscallReturn := True,
                  haveSavedSignalMask := True\<rparr>) =
     (Some RunInterrupt,
      [(Interrupted, task0\<lparr>taskWork := [7], taskWorkCount := 1, haveSyscallReturn := True,
                  haveSavedSignalMask := True\<rparr>)],
      task0\<lparr>taskWork := [7], taskWorkCount := 1, haveSyscallReturn := True,
                  haveSavedSignalMask := True\<rparr>)"
  using interrupted_entry_returns_RunInterrupt
    [of "env0\<lparr>interrupted_ret := (\<lambda>s. True)\<rparr>"
        "([], task0\<lparr>taskWork := [7], taskWorkCount := 1, haveSyscallReturn := True,
                  haveSavedSignalMask := True\<rparr>)"]
  by (simp add: env0_def runApp_execute_def invoke_def)

subsection \<open>Histories only grow\<close>

lemma extendsI:
  "fst s' = fst s @ evs \<Longrightarrow> list_all (\<lambda>x. P (fst x)) evs \<Longrightarrow> extends P s s'"
  by (simp add: extends_def since_def)

lemma extendsD:
  "extends P s s' \<Longrightarrow> fst s' = fst s @ since s s' \<and> list_all (\<lambda>x. P (fst x)) (since s s')"
  unfolding extends_def since_def
  by (metis append_take_drop_id)

lemma extends_refl [simp]: "extends P s s"
  by (simp add: extends_def)

lemma extends_trans:
  assumes "extends P s s'" and "extends P s' s''"
  shows "extends P s s''"
proof -
  from assms(1) have a: "fst s' = fst s @ since s s'" "list_all (\<lambda>x. P (fst x)) (since s s')"
    using extendsD by blast+
  from assms(2) have b: "fst s'' = fst s' @ since s' s''" "list_all (\<lambda>x. P (fst x)) (since s' s'')"
    using extendsD by blast+
  have "fst s'' = fst s @ (since s s' @ since s' s'')"
    using a(1) b(1) by simp
  moreover have "list_all (\<lambda>x. P (fst x)) (since s s' @ since s' s'')"
    using a(2) b(2) by simp
  ultimately show ?thesis by (rule extendsI)
qed

lemma since_trans:
  assumes "extends P s s'" and "extends Q s' s''"
  shows "since s s'' = since s s' @ since s' s''"
proof -
  have "fst s'' = fst s @ (since s s' @ since s' s'')"
    using extendsD [OF assms(1)] extendsD [OF assms(2)] by simp
  then show ?thesis by (rule since_append)
qed

lemma extends_invoke: "P c \<Longrightarrow> extends P s s' \<Longrightarrow> extends P s (invoke e c s')"
  by (rule extends_trans [of P s s']) (simp_all add: extends_def since_def)

lemma extends_observe: "P c \<Longrightarrow> extends P s s' \<Longrightarrow> extends P s (observe c s')"
  by (rule extends_trans [of P s s']) (simp_all add: extends_def since_def)

lemma extends_assign: "extends P s s' \<Longrightarrow> extends P s (assign f s')"
  by (simp add: extends_def since_def)

lemma extends_mono: "(\<And>c. P c \<Longrightarrow> Q c) \<Longrightarrow> extends P s s' \<Longrightarrow> extends Q s s'"
  by (auto simp: extends_def list_all_iff)

lemma foldl_TaskWork_hist:
  "fst (foldl (\<lambda>s' w. invoke e (TaskWork w) s') s ws) = fst s @ since s (foldl (\<lambda>s' w. invoke e (TaskWork w) s') s ws)
   \<and> map fst (since s (foldl (\<lambda>s' w. invoke e (TaskWork w) s') s ws)) = map TaskWork ws"
proof (induction ws arbitrary: s)
  case Nil
  show ?case by simp
next
  case (Cons w ws)
  let ?s1 = "invoke e (TaskWork w) s"
  let ?r = "foldl (\<lambda>s' w. invoke e (TaskWork w) s') ?s1 ws"
  from Cons [of ?s1] have h: "fst ?r = fst ?s1 @ since ?s1 ?r" "map fst (since ?s1 ?r) = map TaskWork ws"
    by simp_all
  have "fst ?r = fst s @ ((TaskWork w, snd s) # since ?s1 ?r)" using h(1) by simp
  then have "since s ?r = (TaskWork w, snd s) # since ?s1 ?r" by (rule since_append)
  then show ?case using h by simp
qed

lemma taskWorkStep_calls:
  "fst (taskWorkStep e s) = fst s @ since s (taskWorkStep e s) \<and>
   calls_since s (taskWorkStep e s) =
     (if taskWorkCount (snd s) > 0 then map TaskWork (taskWork (snd s)) else [])"
  using foldl_TaskWork_hist [of e "assign (\<lambda>t. t\<lparr>taskWork := [], taskWorkCount := 0\<rparr>) s" "taskWork (snd s)"]
  by (simp add: taskWorkStep_def calls_since_def Let_def since_def)

lemma taskWorkStep_extends: "(\<And>w. P (TaskWork w)) \<Longrightarrow> extends P s (taskWorkStep e s)"
proof -
  assume p: "\<And>w. P (TaskWork w)"
  have "list_all P (calls_since s (taskWorkStep e s))"
    using p taskWorkStep_calls [of e s] by (auto simp: list_all_iff)
  then have "list_all (\<lambda>x. P (fst x)) (since s (taskWorkStep e s))"
    by (simp add: calls_since_def list_all_iff)
  with taskWorkStep_calls [of e s] show ?thesis by (blast intro: extendsI)
qed

lemma restartStep_extends:
  "(\<And>c. entryCall c \<Longrightarrow> P c) \<Longrightarrow> extends P s (snd (restartStep e s))"
  by (auto simp: restartStep_def Let_def split: option.splits intro!: extends_invoke extends_observe extends_assign)

lemma maskStep_extends:
  "(\<And>c. entryCall c \<Longrightarrow> P c) \<Longrightarrow> extends P s (snd (maskStep e s))"
  by (auto simp: maskStep_def Let_def intro!: extends_invoke extends_observe extends_assign)

lemma rseqStep_extends:
  "(\<And>c. entryCall c \<Longrightarrow> P c) \<Longrightarrow> extends P s (snd (rseqStep e s))"
  by (auto simp: rseqStep_def rseqFail_def Let_def split: option.splits intro!: extends_invoke extends_observe extends_assign)

lemma deliver_extends:
  "(\<And>c. appCall c \<Longrightarrow> P c) \<Longrightarrow> extends P s (snd (deliver e sig info s))"
  by (auto simp: deliver_def intro!: extends_invoke)

lemma contextSignal_extends:
  "(\<And>c. appCall c \<Longrightarrow> P c) \<Longrightarrow> extends P s (snd (contextSignal e info at s))"
  by (auto simp: contextSignal_def Let_def split: option.splits
      intro!: extends_invoke extends_observe extends_trans [OF _ deliver_extends])

lemma dispatch_extends:
  "(\<And>c. appCall c \<Longrightarrow> P c) \<Longrightarrow> extends P s (snd (dispatch e info at err s))"
  by (auto simp: dispatch_def split: option.splits perror.splits
      intro!: extends_invoke extends_observe extends_assign contextSignal_extends)

lemma platformSwitch_extends:
  "(\<And>c. appCall c \<Longrightarrow> P c) \<Longrightarrow> extends P s (snd (platformSwitch e s))"
  by (auto simp: platformSwitch_def singleStepPrologue_def Let_def split: prod.splits
      intro!: extends_invoke)

lemma tracerPull_extends:
  "(\<And>c. appCall c \<Longrightarrow> P c) \<Longrightarrow> extends P s (snd (tracerPull e err s))"
  by (auto simp: tracerPull_def split: option.splits intro!: extends_invoke extends_observe)

lemma switchStep_extends:
  assumes "\<And>c. appCall c \<Longrightarrow> P c"
  shows "extends P s (snd (switchStep e s))"
proof -
  obtain r s5 where a: "platformSwitch e s = (r, s5)" by (cases "platformSwitch e s")
  obtain info at err where r: "r = (info, at, err)" by (cases r)
  obtain err' s6 where b: "tracerPull e err s5 = (err', s6)" by (cases "tracerPull e err s5")
  have 1: "extends P s s5" using platformSwitch_extends [of P s e] assms a by simp
  have 2: "extends P s5 s6" using tracerPull_extends [of P s5 e err] assms b by simp
  have 3: "extends P s6 (snd (dispatch e info at err' s6))" using dispatch_extends assms by blast
  show ?thesis using extends_trans [OF extends_trans [OF 1 2] 3] a b r
    by (simp add: switchStep_def)
qed

lemma runApp_execute_reached:
  "runApp_execute e s =
     (case atLine240 e s of
        Some s4 \<Rightarrow> switchStep e s4
      | None \<Rightarrow>
          (case atLine207 e s of
             Some s3 \<Rightarrow> (case rseqStep e s3 of (Return r, s4) \<Rightarrow> (r, s4) | (Proceed, s4) \<Rightarrow> switchStep e s4)
           | None \<Rightarrow>
               (case atLine198 e s of
                  Some s2 \<Rightarrow> (case maskStep e s2 of (Return r, s3) \<Rightarrow> (r, s3) | (Proceed, s3) \<Rightarrow> switchStep e s3)
                | None \<Rightarrow>
                    (case atLine180 e s of
                       Some s1 \<Rightarrow> (case restartStep e s1 of (Return r, s2) \<Rightarrow> (r, s2) | (Proceed, s2) \<Rightarrow> switchStep e s2)
                     | None \<Rightarrow> (Some RunInterrupt, invoke e Interrupted s)))))"
  by (simp add: runApp_execute_def atLine240_def atLine207_def atLine198_def atLine180_def Let_def
      split: prod.splits flow.splits option.splits)

lemma atLine180_extends:
  "atLine180 e s = Some s1 \<Longrightarrow> (\<And>c. entryCall c \<Longrightarrow> P c) \<Longrightarrow> extends P s s1"
  by (auto simp: atLine180_def split: if_splits
      intro!: extends_trans [OF _ taskWorkStep_extends] extends_invoke)

lemma atLine198D:
  "atLine198 e s = Some s2 \<Longrightarrow> \<exists>s1. atLine180 e s = Some s1 \<and> restartStep e s1 = (Proceed, s2)"
  by (auto simp: atLine198_def split: option.splits prod.splits flow.splits)

lemma atLine207D:
  "atLine207 e s = Some s3 \<Longrightarrow> \<exists>s2. atLine198 e s = Some s2 \<and> maskStep e s2 = (Proceed, s3)"
  by (auto simp: atLine207_def split: option.splits prod.splits flow.splits)

lemma atLine240D:
  "atLine240 e s = Some s4 \<Longrightarrow> \<exists>s3. atLine207 e s = Some s3 \<and> rseqStep e s3 = (Proceed, s4)"
  by (auto simp: atLine240_def split: option.splits prod.splits flow.splits)

lemma atLine198_extends:
  assumes "atLine198 e s = Some s2" and p: "\<And>c. entryCall c \<Longrightarrow> P c"
  shows "extends P s s2"
proof -
  from atLine198D [OF assms(1)] obtain s1
    where a: "atLine180 e s = Some s1" and b: "restartStep e s1 = (Proceed, s2)" by blast
  have "extends P s1 (snd (restartStep e s1))" using p by (rule restartStep_extends)
  with b have "extends P s1 s2" by simp
  moreover have "extends P s s1" by (rule atLine180_extends [OF a]) (rule p)
  ultimately show ?thesis by (blast intro: extends_trans)
qed

lemma atLine207_extends:
  assumes "atLine207 e s = Some s3" and p: "\<And>c. entryCall c \<Longrightarrow> P c"
  shows "extends P s s3"
proof -
  from atLine207D [OF assms(1)] obtain s2
    where a: "atLine198 e s = Some s2" and b: "maskStep e s2 = (Proceed, s3)" by blast
  have "extends P s2 (snd (maskStep e s2))" using p by (rule maskStep_extends)
  with b have "extends P s2 s3" by simp
  moreover have "extends P s s2" by (rule atLine198_extends [OF a]) (rule p)
  ultimately show ?thesis by (blast intro: extends_trans)
qed

lemma atLine240_extends:
  assumes "atLine240 e s = Some s4" and p: "\<And>c. entryCall c \<Longrightarrow> P c"
  shows "extends P s s4"
proof -
  from atLine240D [OF assms(1)] obtain s3
    where a: "atLine207 e s = Some s3" and b: "rseqStep e s3 = (Proceed, s4)" by blast
  have "extends P s3 (snd (rseqStep e s3))" using p by (rule rseqStep_extends)
  with b have "extends P s3 s4" by simp
  moreover have "extends P s s3" by (rule atLine207_extends [OF a]) (rule p)
  ultimately show ?thesis by (blast intro: extends_trans)
qed

lemma extends_calls: "extends P s s' \<Longrightarrow> list_all P (calls_since s s')"
  by (simp add: extends_def calls_since_def list_all_iff)

lemma restartStep_no_check: "extends (\<lambda>c. c \<noteq> Interrupted) s (snd (restartStep e s))"
  by (auto simp: restartStep_def Let_def split: option.splits
      intro!: extends_invoke extends_observe extends_assign)

lemma atLine180_no_check:
  assumes "atLine180 e s = Some s1"
  shows "extends (\<lambda>c. c \<noteq> Interrupted) (invoke e Interrupted s) s1"
proof -
  from assms have "s1 = taskWorkStep e (invoke e Interrupted s)"
    by (simp add: atLine180_def split: if_splits)
  then show ?thesis by (simp add: taskWorkStep_extends)
qed

lemma atLine198_no_check:
  assumes "atLine198 e s = Some s2"
  shows "extends (\<lambda>c. c \<noteq> Interrupted) (invoke e Interrupted s) s2"
proof -
  from atLine198D [OF assms] obtain s1
    where a: "atLine180 e s = Some s1" and b: "restartStep e s1 = (Proceed, s2)" by blast
  have "extends (\<lambda>c. c \<noteq> Interrupted) s1 (snd (restartStep e s1))"
    by (rule restartStep_no_check)
  with b have "extends (\<lambda>c. c \<noteq> Interrupted) s1 s2" by simp
  with atLine180_no_check [OF a] show ?thesis by (blast intro: extends_trans)
qed

subsection \<open>Restarting the interrupted syscall\<close>

text \<open>
  Claim C3, as amended. On an entry into \<^verbatim>\<open>runApp.execute\<close> whose interrupt check answered
  false, when line 180 finds \<^verbatim>\<open>haveSyscallReturn\<close> set, the state pull succeeds and the
  return value pulled encodes a restart errno \<open>sre\<close>: the function goes on to line 198, and
  between the two lines it has called \<^verbatim>\<open>PullFullState\<close>, logged, and called
  \<^verbatim>\<open>RestartSyscallWithRestartBlock\<close> if \<open>sre\<close> is \<^verbatim>\<open>ERESTART_RESTARTBLOCK\<close> and
  \<^verbatim>\<open>RestartSyscall\<close> otherwise; the task is the one that call left, with
  \<^verbatim>\<open>haveSyscallReturn\<close> cleared.
\<close>

theorem restart_rewrites_registers:
  assumes "atLine180 e s = Some s1"
    and "haveSyscallReturn (snd s1)"
    and "PullFullState_ret e s1 = None"
    and "SyscallRestartErrorFromReturn e (ArchReturn e (invoke e PullFullState s1)) = Some sre"
  shows "atLine198 e s = Some (snd (restartStep e s1)) \<and>
    calls_since s1 (snd (restartStep e s1)) =
      [PullFullState, Debugf,
       if sre = ERESTART_RESTARTBLOCK then RestartSyscallWithRestartBlock else RestartSyscall] \<and>
    snd (snd (restartStep e s1)) =
      (effect e (observe Debugf (invoke e PullFullState s1))
         (if sre = ERESTART_RESTARTBLOCK then RestartSyscallWithRestartBlock else RestartSyscall))
       \<lparr>haveSyscallReturn := False\<rparr> \<and>
    \<not> haveSyscallReturn (snd (snd (restartStep e s1)))"
  using assms
  by (simp add: atLine198_def restartStep_def Let_def calls_since_def since_def)

theorem restart_rewrites_registers_witness:
  "atLine180 (env0\<lparr>SyscallRestartErrorFromReturn := (\<lambda>r. Some ERESTART_RESTARTBLOCK)\<rparr>)
      ([], task0\<lparr>haveSyscallReturn := True\<rparr>) =
     Some ([(Interrupted, task0\<lparr>haveSyscallReturn := True\<rparr>)], task0\<lparr>haveSyscallReturn := True\<rparr>) \<and>
   atLine198 (env0\<lparr>SyscallRestartErrorFromReturn := (\<lambda>r. Some ERESTART_RESTARTBLOCK)\<rparr>)
      ([], task0\<lparr>haveSyscallReturn := True\<rparr>) =
     Some ([(Interrupted, task0\<lparr>haveSyscallReturn := True\<rparr>),
            (PullFullState, task0\<lparr>haveSyscallReturn := True\<rparr>),
            (Debugf, task0\<lparr>haveSyscallReturn := True\<rparr>),
            (RestartSyscallWithRestartBlock, task0\<lparr>haveSyscallReturn := True\<rparr>)], task0)"
proof -
  let ?e = "env0\<lparr>SyscallRestartErrorFromReturn := (\<lambda>r. Some ERESTART_RESTARTBLOCK)\<rparr>"
  let ?t = "task0\<lparr>haveSyscallReturn := True\<rparr>"
  have a: "atLine180 ?e ([], ?t) = Some ([(Interrupted, ?t)], ?t)"
    by (simp add: atLine180_def taskWorkStep_def env0_def task0_def invoke_def)
  have b: "haveSyscallReturn (snd ([(Interrupted, ?t)], ?t))" by simp
  have c: "PullFullState_ret ?e ([(Interrupted, ?t)], ?t) = None" by (simp add: env0_def)
  have d: "SyscallRestartErrorFromReturn ?e
      (ArchReturn ?e (invoke ?e PullFullState ([(Interrupted, ?t)], ?t))) = Some ERESTART_RESTARTBLOCK"
    by simp
  have t: "?t\<lparr>haveSyscallReturn := False\<rparr> = task0" by (simp add: task0_def)
  from restart_rewrites_registers [OF a b c d] a t show ?thesis
    by (simp add: restartStep_def env0_def invoke_def observe_def assign_def)
qed

text \<open>
  Claim C3 as stated fails: an entry with a pending interruption returns
  \<^verbatim>\<open>runInterrupt\<close> at line 156, although \<^verbatim>\<open>haveSyscallReturn\<close> is set and the return
  value encodes a restart; no restart call is made and the flag stays set.
\<close>

theorem restart_skipped_when_interrupted:
  "haveSyscallReturn (snd ([], task0\<lparr>haveSyscallReturn := True\<rparr>)) \<and>
   SyscallRestartErrorFromReturn
       (env0\<lparr>interrupted_ret := (\<lambda>s. True), SyscallRestartErrorFromReturn := (\<lambda>r. Some ERESTARTSYS)\<rparr>)
       (ArchReturn
          (env0\<lparr>interrupted_ret := (\<lambda>s. True), SyscallRestartErrorFromReturn := (\<lambda>r. Some ERESTARTSYS)\<rparr>)
          ([], task0\<lparr>haveSyscallReturn := True\<rparr>)) = Some ERESTARTSYS \<and>
   runApp_execute
       (env0\<lparr>interrupted_ret := (\<lambda>s. True), SyscallRestartErrorFromReturn := (\<lambda>r. Some ERESTARTSYS)\<rparr>)
       ([], task0\<lparr>haveSyscallReturn := True\<rparr>) =
     (Some RunInterrupt,
      [(Interrupted, task0\<lparr>haveSyscallReturn := True\<rparr>)], task0\<lparr>haveSyscallReturn := True\<rparr>) \<and>
   haveSyscallReturn (task0\<lparr>haveSyscallReturn := True\<rparr>)"
  by (simp add: runApp_execute_def env0_def invoke_def)

subsection \<open>Restoring the saved signal mask\<close>

lemma maskStep_saved:
  "haveSavedSignalMask (snd s2) \<Longrightarrow>
     maskStep e s2 =
       (if interrupted_ret e (maskRestored e s2) then Return (Some RunInterrupt) else Proceed,
        invoke e Interrupted (maskRestored e s2))"
  by (simp add: maskStep_def maskRestored_def Let_def)

text \<open>
  Claim C4. On an entry into \<^verbatim>\<open>runApp.execute\<close> that reaches line 198 with a saved signal
  mask \<open>M\<close>: no interrupt check has been made since the one on entry; lines 198-204 call
  \<^verbatim>\<open>SetSignalMask(M)\<close> and then \<^verbatim>\<open>interrupted()\<close>, which sees the task with the mask
  restored and \<^verbatim>\<open>haveSavedSignalMask\<close> cleared; if that check answers true the function
  returns \<^verbatim>\<open>runInterrupt\<close> there, having made no further call (no rseq step, no switch),
  and otherwise it goes on to line 207.
\<close>

theorem saved_mask_restored_before_check:
  assumes "atLine198 e s = Some s2" and "haveSavedSignalMask (snd s2)"
  shows "list_all (\<lambda>c. c \<noteq> Interrupted) (calls_since (invoke e Interrupted s) s2) \<and>
    since s2 (snd (maskStep e s2)) =
      [(SetSignalMask (savedSignalMask (snd s2)), snd s2),
       (Interrupted, snd (maskRestored e s2))] \<and>
    snd (maskRestored e s2) =
      (effect e s2 (SetSignalMask (savedSignalMask (snd s2))))\<lparr>haveSavedSignalMask := False\<rparr> \<and>
    (if interrupted_ret e (maskRestored e s2)
     then runApp_execute e s = (Some RunInterrupt, snd (maskStep e s2))
     else atLine207 e s = Some (snd (maskStep e s2)))"
proof -
  have 1: "list_all (\<lambda>c. c \<noteq> Interrupted) (calls_since (invoke e Interrupted s) s2)"
    using atLine198_no_check [OF assms(1)] by (rule extends_calls)
  have 2: "since s2 (snd (maskStep e s2)) =
      [(SetSignalMask (savedSignalMask (snd s2)), snd s2),
       (Interrupted, snd (maskRestored e s2))]"
    using assms(2) by (simp add: maskStep_saved since_def maskRestored_def)
  have 3: "snd (maskRestored e s2) =
      (effect e s2 (SetSignalMask (savedSignalMask (snd s2))))\<lparr>haveSavedSignalMask := False\<rparr>"
    by (simp add: maskRestored_def)
  have 4: "atLine207 e s = (if interrupted_ret e (maskRestored e s2) then None
      else Some (snd (maskStep e s2)))"
    using assms by (simp add: atLine207_def maskStep_saved)
  have 5: "interrupted_ret e (maskRestored e s2) \<Longrightarrow>
      runApp_execute e s = (Some RunInterrupt, snd (maskStep e s2))"
    using assms 4 by (simp add: runApp_execute_reached atLine240_def maskStep_saved)
  from 1 2 3 4 5 show ?thesis by simp
qed

theorem saved_mask_restored_before_check_witness:
  "atLine198 (env0\<lparr>interrupted_ret := (\<lambda>s. fst s \<noteq> [])\<rparr>)
      ([], task0\<lparr>haveSavedSignalMask := True, savedSignalMask := 5\<rparr>) =
     Some ([(Interrupted, task0\<lparr>haveSavedSignalMask := True, savedSignalMask := 5\<rparr>)],
           task0\<lparr>haveSavedSignalMask := True, savedSignalMask := 5\<rparr>) \<and>
   runApp_execute (env0\<lparr>interrupted_ret := (\<lambda>s. fst s \<noteq> [])\<rparr>)
      ([], task0\<lparr>haveSavedSignalMask := True, savedSignalMask := 5\<rparr>) =
     (Some RunInterrupt,
      [(Interrupted, task0\<lparr>haveSavedSignalMask := True, savedSignalMask := 5\<rparr>),
       (SetSignalMask 5, task0\<lparr>haveSavedSignalMask := True, savedSignalMask := 5\<rparr>),
       (Interrupted, task0\<lparr>haveSavedSignalMask := False, savedSignalMask := 5\<rparr>)],
      task0\<lparr>haveSavedSignalMask := False, savedSignalMask := 5\<rparr>)"
proof -
  let ?e = "env0\<lparr>interrupted_ret := (\<lambda>s. fst s \<noteq> [])\<rparr>"
  let ?t = "task0\<lparr>haveSavedSignalMask := True, savedSignalMask := 5\<rparr>"
  have a: "atLine198 ?e ([], ?t) = Some ([(Interrupted, ?t)], ?t)"
    by (simp add: atLine198_def atLine180_def taskWorkStep_def restartStep_def env0_def
        task0_def invoke_def)
  have b: "haveSavedSignalMask (snd ([(Interrupted, ?t)], ?t))" by simp
  have c: "interrupted_ret ?e (maskRestored ?e ([(Interrupted, ?t)], ?t))"
    by (simp add: maskRestored_def)
  from saved_mask_restored_before_check [OF a b] a c show ?thesis
    by (simp add: maskStep_def env0_def invoke_def assign_def task0_def)
qed

subsection \<open>Restartable sequences\<close>

lemma rseqStep_registered:
  assumes "rseqPreempted (snd s3)" and "rseqAddr (snd s3) \<noteq> 0 \<or> oldRSeqCPUAddr (snd s3) \<noteq> 0"
  shows "rseqStep e s3 =
    (case rseqCopyOutCPU_ret e (beforeCopyOut e s3) of
       Some err \<Rightarrow> rseqFail e (invoke e RseqCopyOutCPU (beforeCopyOut e s3))
     | None \<Rightarrow>
        (case oldRSeqCopyOutCPU_ret e (invoke e RseqCopyOutCPU (beforeCopyOut e s3)) of
           Some err \<Rightarrow>
             rseqFail e (invoke e OldRSeqCopyOutCPU (invoke e RseqCopyOutCPU (beforeCopyOut e s3)))
         | None \<Rightarrow>
             (Proceed, invoke e RseqInterrupt
                 (invoke e OldRSeqCopyOutCPU (invoke e RseqCopyOutCPU (beforeCopyOut e s3))))))"
  using assms by (auto simp: rseqStep_def beforeCopyOut_def Let_def split: option.splits)

lemma since_beforeCopyOut:
  "fst (beforeCopyOut e s3) = fst s3 @ [(GetCPU, (snd s3)\<lparr>rseqPreempted := False\<rparr>)]"
  by (simp add: beforeCopyOut_def Let_def)

lemma rseqStep_calls:
  assumes "rseqPreempted (snd s3)" and "rseqAddr (snd s3) \<noteq> 0 \<or> oldRSeqCPUAddr (snd s3) \<noteq> 0"
  shows "calls_since s3 (snd (rseqStep e s3)) =
    (case rseqCopyOutCPU_ret e (beforeCopyOut e s3) of
       Some err \<Rightarrow>
         [GetCPU, RseqCopyOutCPU, Debugf, ForceSignal SIGSEGV, SendSignal (SignalInfoPriv SIGSEGV)]
     | None \<Rightarrow>
        (case oldRSeqCopyOutCPU_ret e (invoke e RseqCopyOutCPU (beforeCopyOut e s3)) of
           Some err \<Rightarrow>
             [GetCPU, RseqCopyOutCPU, OldRSeqCopyOutCPU, Debugf, ForceSignal SIGSEGV,
              SendSignal (SignalInfoPriv SIGSEGV)]
         | None \<Rightarrow> [GetCPU, RseqCopyOutCPU, OldRSeqCopyOutCPU, RseqInterrupt]))"
  by (simp add: rseqStep_registered [OF assms] rseqFail_def calls_since_def since_def
      since_beforeCopyOut split: option.splits)

lemma rseqStep_calls_other:
  assumes "\<not> (rseqPreempted (snd s3) \<and> (rseqAddr (snd s3) \<noteq> 0 \<or> oldRSeqCPUAddr (snd s3) \<noteq> 0))"
  shows "calls_since s3 (snd (rseqStep e s3)) = (if rseqPreempted (snd s3) then [RseqInterrupt] else [])"
  using assms by (auto simp: rseqStep_def Let_def calls_since_def since_def)

text \<open>
  Claim C8. On an entry into \<^verbatim>\<open>runApp.execute\<close> that reaches line 207 with
  \<^verbatim>\<open>rseqPreempted\<close> set and an rseq address registered, when \<^verbatim>\<open>rseqCopyOutCPU\<close> or
  \<^verbatim>\<open>oldRSeqCopyOutCPU\<close> fails: the function returns \<^verbatim>\<open>runApp\<close>, and after the failed
  copy-out it has logged, called \<^verbatim>\<open>forceSignal(SIGSEGV)\<close> and
  \<^verbatim>\<open>SendSignal(SignalInfoPriv(SIGSEGV))\<close> on the task itself, and nothing else: no exit is
  prepared and the platform is not switched into.
\<close>

theorem rseq_copy_failure_sends_SIGSEGV:
  assumes "atLine207 e s = Some s3"
    and "rseqPreempted (snd s3)"
    and "rseqAddr (snd s3) \<noteq> 0 \<or> oldRSeqCPUAddr (snd s3) \<noteq> 0"
    and "rseqCopyOutCPU_ret e (beforeCopyOut e s3) \<noteq> None \<or>
         oldRSeqCopyOutCPU_ret e (invoke e RseqCopyOutCPU (beforeCopyOut e s3)) \<noteq> None"
  shows "fst (runApp_execute e s) = Some RunApp \<and>
    calls_since s3 (snd (runApp_execute e s)) =
      (if rseqCopyOutCPU_ret e (beforeCopyOut e s3) \<noteq> None
       then [GetCPU, RseqCopyOutCPU]
       else [GetCPU, RseqCopyOutCPU, OldRSeqCopyOutCPU]) @
      [Debugf, ForceSignal SIGSEGV, SendSignal (SignalInfoPriv SIGSEGV)]"
proof -
  from assms(4) have r: "fst (rseqStep e s3) = Return (Some RunApp)"
    by (auto simp: rseqStep_registered [OF assms(2,3)] rseqFail_def split: option.splits)
  then have "atLine240 e s = None"
    using assms(1) by (auto simp: atLine240_def split: prod.splits)
  then have x: "runApp_execute e s = (Some RunApp, snd (rseqStep e s3))"
    using assms(1) r by (auto simp: runApp_execute_reached split: prod.splits)
  show ?thesis
    using assms(4) by (auto simp: x rseqStep_calls [OF assms(2,3)] split: option.splits)
qed

theorem rseq_copy_failure_sends_SIGSEGV_witness:
  "atLine207 (env0\<lparr>oldRSeqCopyOutCPU_ret := (\<lambda>s. Some (ErrOther 14))\<rparr>)
      ([], task0\<lparr>rseqPreempted := True, oldRSeqCPUAddr := 4096\<rparr>) =
     Some ([(Interrupted, task0\<lparr>rseqPreempted := True, oldRSeqCPUAddr := 4096\<rparr>)],
           task0\<lparr>rseqPreempted := True, oldRSeqCPUAddr := 4096\<rparr>) \<and>
   fst (runApp_execute (env0\<lparr>oldRSeqCopyOutCPU_ret := (\<lambda>s. Some (ErrOther 14))\<rparr>)
      ([], task0\<lparr>rseqPreempted := True, oldRSeqCPUAddr := 4096\<rparr>)) = Some RunApp \<and>
   calls_since ([(Interrupted, task0\<lparr>rseqPreempted := True, oldRSeqCPUAddr := 4096\<rparr>)],
           task0\<lparr>rseqPreempted := True, oldRSeqCPUAddr := 4096\<rparr>)
     (snd (runApp_execute (env0\<lparr>oldRSeqCopyOutCPU_ret := (\<lambda>s. Some (ErrOther 14))\<rparr>)
      ([], task0\<lparr>rseqPreempted := True, oldRSeqCPUAddr := 4096\<rparr>))) =
     [GetCPU, RseqCopyOutCPU, OldRSeqCopyOutCPU, Debugf, ForceSignal 11,
      SendSignal \<lparr>Signo = 11, Code = 128, Addr = 0\<rparr>]"
proof -
  let ?e = "env0\<lparr>oldRSeqCopyOutCPU_ret := (\<lambda>s. Some (ErrOther 14))\<rparr>"
  let ?t = "task0\<lparr>rseqPreempted := True, oldRSeqCPUAddr := 4096\<rparr>"
  have a: "atLine207 ?e ([], ?t) = Some ([(Interrupted, ?t)], ?t)"
    by (simp add: atLine207_def atLine198_def atLine180_def taskWorkStep_def restartStep_def
        maskStep_def env0_def task0_def invoke_def)
  have b: "rseqPreempted (snd ([(Interrupted, ?t)], ?t))" by simp
  have c: "rseqAddr (snd ([(Interrupted, ?t)], ?t)) \<noteq> 0 \<or>
      oldRSeqCPUAddr (snd ([(Interrupted, ?t)], ?t)) \<noteq> 0" by simp
  have d: "rseqCopyOutCPU_ret ?e (beforeCopyOut ?e ([(Interrupted, ?t)], ?t)) \<noteq> None \<or>
      oldRSeqCopyOutCPU_ret ?e (invoke ?e RseqCopyOutCPU (beforeCopyOut ?e ([(Interrupted, ?t)], ?t)))
        \<noteq> None" by simp
  from rseq_copy_failure_sends_SIGSEGV [OF a b c d] a show ?thesis
    by (simp add: env0_def signal_defs SignalInfoPriv_def)
qed

lemma dispatch_preempted:
  "dispatch e info at (Some ErrContextCPUPreempted) s =
     (Some RunApp, assign (\<lambda>t. t\<lparr>rseqPreempted := True\<rparr>) s)"
  by (simp add: dispatch_def)

lemma mark_preempted_idem:
  "0 < n \<Longrightarrow>
   ((\<lambda>s. snd (dispatch e info at (Some ErrContextCPUPreempted) s)) ^^ n) s =
     assign (\<lambda>t. t\<lparr>rseqPreempted := True\<rparr>) s"
proof (induction n)
  case 0
  then show ?case by simp
next
  case (Suc n)
  show ?case
  proof (cases "n = 0")
    case True
    then show ?thesis by (simp add: dispatch_preempted)
  next
    case False
    with Suc show ?thesis by (simp add: dispatch_preempted assign_def)
  qed
qed

text \<open>
  Claim C7. When the switch reports \<^verbatim>\<open>ErrContextCPUPreempted\<close>, \<^verbatim>\<open>runApp.execute\<close>
  makes no further call: it sets \<^verbatim>\<open>rseqPreempted\<close> and returns \<^verbatim>\<open>runApp\<close>. Handling
  the outcome several times in a row leaves the task as handling it once does. The copy-out
  is made by lines 207-227 of a later entry: there \<^verbatim>\<open>rseqCopyOutCPU\<close> is called exactly
  once when the flag is set and an address is registered, and not at all otherwise,
  \<^verbatim>\<open>oldRSeqCopyOutCPU\<close> at most once, and the flag is already cleared when the CPU number is
  read and copied out.
\<close>

theorem preemption_marks_flag_copy_out_once:
  "(platformSwitch e s4 = ((info, at, err), s5) \<and>
    tracerPull e err s5 = (Some ErrContextCPUPreempted, s6) \<longrightarrow>
      switchStep e s4 = (Some RunApp, assign (\<lambda>t. t\<lparr>rseqPreempted := True\<rparr>) s6) \<and>
      rseqPreempted (snd (snd (switchStep e s4)))) \<and>
   (0 < n \<longrightarrow>
      ((\<lambda>s. snd (dispatch e info at (Some ErrContextCPUPreempted) s)) ^^ n) s =
        assign (\<lambda>t. t\<lparr>rseqPreempted := True\<rparr>) s) \<and>
   count_list (calls_since s3 (snd (rseqStep e s3))) RseqCopyOutCPU =
     (if rseqPreempted (snd s3) \<and> (rseqAddr (snd s3) \<noteq> 0 \<or> oldRSeqCPUAddr (snd s3) \<noteq> 0)
      then 1 else 0) \<and>
   count_list (calls_since s3 (snd (rseqStep e s3))) OldRSeqCopyOutCPU \<le> 1 \<and>
   (rseqPreempted (snd s3) \<and> (rseqAddr (snd s3) \<noteq> 0 \<or> oldRSeqCPUAddr (snd s3) \<noteq> 0) \<longrightarrow>
      take 2 (since s3 (snd (rseqStep e s3))) =
        [(GetCPU, (snd s3)\<lparr>rseqPreempted := False\<rparr>),
         (RseqCopyOutCPU, snd (beforeCopyOut e s3))] \<and>
      \<not> rseqPreempted (snd (beforeCopyOut e s3)))"
proof -
  have 1: "platformSwitch e s4 = ((info, at, err), s5) \<and>
    tracerPull e err s5 = (Some ErrContextCPUPreempted, s6) \<longrightarrow>
      switchStep e s4 = (Some RunApp, assign (\<lambda>t. t\<lparr>rseqPreempted := True\<rparr>) s6) \<and>
      rseqPreempted (snd (snd (switchStep e s4)))"
    by (simp add: switchStep_def dispatch_preempted)
  have 2: "0 < n \<longrightarrow>
      ((\<lambda>s. snd (dispatch e info at (Some ErrContextCPUPreempted) s)) ^^ n) s =
        assign (\<lambda>t. t\<lparr>rseqPreempted := True\<rparr>) s"
    by (simp add: mark_preempted_idem)
  let ?reg = "rseqPreempted (snd s3) \<and> (rseqAddr (snd s3) \<noteq> 0 \<or> oldRSeqCPUAddr (snd s3) \<noteq> 0)"
  have 3: "count_list (calls_since s3 (snd (rseqStep e s3))) RseqCopyOutCPU = (if ?reg then 1 else 0)"
  proof (cases ?reg)
    case True
    then show ?thesis by (simp add: rseqStep_calls split: option.splits)
  next
    case False
    then show ?thesis by (simp add: rseqStep_calls_other)
  qed
  have 4: "count_list (calls_since s3 (snd (rseqStep e s3))) OldRSeqCopyOutCPU \<le> 1"
  proof (cases ?reg)
    case True
    then show ?thesis by (simp add: rseqStep_calls split: option.splits)
  next
    case False
    then show ?thesis by (simp add: rseqStep_calls_other)
  qed
  have 5: "?reg \<longrightarrow>
      take 2 (since s3 (snd (rseqStep e s3))) =
        [(GetCPU, (snd s3)\<lparr>rseqPreempted := False\<rparr>),
         (RseqCopyOutCPU, snd (beforeCopyOut e s3))] \<and>
      \<not> rseqPreempted (snd (beforeCopyOut e s3))"
  proof
    assume r: ?reg
    then have a: "rseqPreempted (snd s3)"
      and b: "rseqAddr (snd s3) \<noteq> 0 \<or> oldRSeqCPUAddr (snd s3) \<noteq> 0" by simp_all
    have "take 2 (since s3 (snd (rseqStep e s3))) =
        [(GetCPU, (snd s3)\<lparr>rseqPreempted := False\<rparr>),
         (RseqCopyOutCPU, snd (beforeCopyOut e s3))]"
      by (simp add: rseqStep_registered [OF a b] rseqFail_def since_def since_beforeCopyOut
          split: option.splits)
    moreover have "\<not> rseqPreempted (snd (beforeCopyOut e s3))"
      by (simp add: beforeCopyOut_def Let_def)
    ultimately show "take 2 (since s3 (snd (rseqStep e s3))) =
        [(GetCPU, (snd s3)\<lparr>rseqPreempted := False\<rparr>),
         (RseqCopyOutCPU, snd (beforeCopyOut e s3))] \<and>
      \<not> rseqPreempted (snd (beforeCopyOut e s3))" by simp
  qed
  from 1 2 3 4 5 show ?thesis by blast
qed

theorem preemption_marks_flag_copy_out_once_witness:
  "platformSwitch (env0\<lparr>Switch_ret := (\<lambda>s. (SignalInfoPriv 0, \<lparr>Read = False, Write = False, Execute = False\<rparr>, Some ErrContextCPUPreempted))\<rparr>)
       ([], task0\<lparr>rseqAddr := 4096\<rparr>) =
     ((SignalInfoPriv 0, \<lparr>Read = False, Write = False, Execute = False\<rparr>, Some ErrContextCPUPreempted),
      [(AccountTaskGoroutineEnter TaskGoroutineRunningApp, task0\<lparr>rseqAddr := 4096\<rparr>),
       (Switch, task0\<lparr>rseqAddr := 4096\<rparr>),
       (AccountTaskGoroutineLeave TaskGoroutineRunningApp, task0\<lparr>rseqAddr := 4096\<rparr>)],
      task0\<lparr>rseqAddr := 4096\<rparr>) \<and>
   switchStep (env0\<lparr>Switch_ret := (\<lambda>s. (SignalInfoPriv 0, \<lparr>Read = False, Write = False, Execute = False\<rparr>, Some ErrContextCPUPreempted))\<rparr>)
       ([], task0\<lparr>rseqAddr := 4096\<rparr>) =
     (Some RunApp,
      [(AccountTaskGoroutineEnter TaskGoroutineRunningApp, task0\<lparr>rseqAddr := 4096\<rparr>),
       (Switch, task0\<lparr>rseqAddr := 4096\<rparr>),
       (AccountTaskGoroutineLeave TaskGoroutineRunningApp, task0\<lparr>rseqAddr := 4096\<rparr>)],
      task0\<lparr>rseqAddr := 4096, rseqPreempted := True\<rparr>) \<and>
   ((\<lambda>s. snd (dispatch (env0\<lparr>Switch_ret := (\<lambda>s. (SignalInfoPriv 0, \<lparr>Read = False, Write = False, Execute = False\<rparr>, Some ErrContextCPUPreempted))\<rparr>)
        (SignalInfoPriv 0) \<lparr>Read = False, Write = False, Execute = False\<rparr>
                  (Some ErrContextCPUPreempted) s)) ^^ 2) ([], task0\<lparr>rseqAddr := 4096\<rparr>) =
     ([], task0\<lparr>rseqAddr := 4096, rseqPreempted := True\<rparr>) \<and>
   rseqPreempted (snd ([], task0\<lparr>rseqAddr := 4096, rseqPreempted := True\<rparr>)) \<and>
   rseqAddr (snd ([], task0\<lparr>rseqAddr := 4096, rseqPreempted := True\<rparr>)) \<noteq> 0 \<and>
   count_list (calls_since ([], task0\<lparr>rseqAddr := 4096, rseqPreempted := True\<rparr>)
      (snd (rseqStep (env0\<lparr>Switch_ret := (\<lambda>s. (SignalInfoPriv 0, \<lparr>Read = False, Write = False, Execute = False\<rparr>, Some ErrContextCPUPreempted))\<rparr>)
        ([], task0\<lparr>rseqAddr := 4096, rseqPreempted := True\<rparr>)))) RseqCopyOutCPU = 1 \<and>
   take 2 (since ([], task0\<lparr>rseqAddr := 4096, rseqPreempted := True\<rparr>)
      (snd (rseqStep (env0\<lparr>Switch_ret := (\<lambda>s. (SignalInfoPriv 0, \<lparr>Read = False, Write = False, Execute = False\<rparr>, Some ErrContextCPUPreempted))\<rparr>)
        ([], task0\<lparr>rseqAddr := 4096, rseqPreempted := True\<rparr>)))) =
     [(GetCPU, task0\<lparr>rseqAddr := 4096, rseqPreempted := False\<rparr>),
      (RseqCopyOutCPU, task0\<lparr>rseqAddr := 4096, rseqPreempted := False, rseqCPU := 3\<rparr>)]"
proof -
  let ?i = "SignalInfoPriv 0"
  let ?a = "\<lparr>Read = False, Write = False, Execute = False\<rparr>"
  let ?e = "env0\<lparr>Switch_ret := (\<lambda>s. (?i, ?a, Some ErrContextCPUPreempted))\<rparr>"
  let ?t = "task0\<lparr>rseqAddr := 4096\<rparr>"
  let ?s5 = "([(AccountTaskGoroutineEnter TaskGoroutineRunningApp, ?t), (Switch, ?t),
       (AccountTaskGoroutineLeave TaskGoroutineRunningApp, ?t)], ?t)"
  let ?s3 = "([], task0\<lparr>rseqAddr := 4096, rseqPreempted := True\<rparr>) :: st"
  have a: "platformSwitch ?e ([], ?t) = ((?i, ?a, Some ErrContextCPUPreempted), ?s5)"
    by (simp add: platformSwitch_def singleStepPrologue_def env0_def invoke_def)
  have b: "tracerPull ?e (Some ErrContextCPUPreempted) ?s5 = (Some ErrContextCPUPreempted, ?s5)"
    by (simp add: tracerPull_def env0_def)
  have c: "rseqPreempted (snd ?s3) \<and> (rseqAddr (snd ?s3) \<noteq> 0 \<or> oldRSeqCPUAddr (snd ?s3) \<noteq> 0)"
    by simp
  have d: "snd (beforeCopyOut ?e ?s3) = task0\<lparr>rseqAddr := 4096, rseqPreempted := False, rseqCPU := 3\<rparr>"
    by (simp add: beforeCopyOut_def Let_def env0_def)
  have g: "(0::nat) < 2" by simp
  note w = preemption_marks_flag_copy_out_once
  from w [of ?e "([], ?t)" ?i ?a "Some ErrContextCPUPreempted" ?s5 ?s5 2 "([], ?t)" ?s3]
    a b c d g
  show ?thesis by (simp add: assign_def)
qed

subsection \<open>Signals reported by the platform\<close>

lemma deliver_calls:
  "calls_since s (snd (deliver e sig info s)) =
     (if sig = SIGILL \<or> sig = SIGSEGV \<or> sig = SIGBUS \<or> sig = SIGFPE \<or> sig = SIGTRAP
      then [ForceSignal sig, SendSignal info]
      else if sig = SignalInterrupt \<or> sig = SIGPROF then []
      else [SendExternalSignal info])"
  by (simp add: deliver_def calls_since_def since_def)

lemma deliver_discards:
  "sig = SignalInterrupt \<or> sig = SIGPROF \<Longrightarrow> deliver e sig info s = (Some RunApp, s)"
  by (auto simp: deliver_def signal_defs)

text \<open>
  Claim C10. When the switch reports \<^verbatim>\<open>ErrContextSignal\<close> and the access type is empty,
  or the fault could not be handled and is not an emulated vsyscall, \<^verbatim>\<open>runApp.execute\<close>
  comes to the \<^verbatim>\<open>switch sig\<close> of line 325 (with \<^verbatim>\<open>SIGBUS\<close> in place of the signal
  after a bus error) and returns \<^verbatim>\<open>runApp\<close>. There \<^verbatim>\<open>SIGILL\<close>, \<^verbatim>\<open>SIGSEGV\<close>,
  \<^verbatim>\<open>SIGBUS\<close>, \<^verbatim>\<open>SIGFPE\<close> and \<^verbatim>\<open>SIGTRAP\<close> are forced and sent to the task itself;
  \<^verbatim>\<open>platform.SignalInterrupt\<close> and \<^verbatim>\<open>SIGPROF\<close> are dropped, with no call made and the
  task unchanged; every other signal goes to \<^verbatim>\<open>sendExternalSignal\<close>.
\<close>

theorem platform_signal_classified:
  "(\<not> Any at \<longrightarrow>
      dispatch e info at (Some ErrContextSignal) s = deliver e (Signo info) info s) \<and>
   (Any at2 \<and> HandleUserFault_ret e s2 = Some ferr \<and>
    (Execute at2 \<longrightarrow>
       LookupEmulate_ret e (observe (LookupEmulate (Addr info2))
          (invoke e (HandleUserFault (Addr info2) at2) s2)) = None) \<longrightarrow>
      dispatch e info2 at2 (Some ErrContextSignal) s2 =
        (if ferr = BusError then deliver e SIGBUS (info2\<lparr>Signo := SIGBUS\<rparr>)
         else deliver e (Signo info2) info2)
          (observe DebugDumpState (observe Debugf
             (if Execute at2
              then observe (LookupEmulate (Addr info2))
                     (invoke e (HandleUserFault (Addr info2) at2) s2)
              else invoke e (HandleUserFault (Addr info2) at2) s2)))) \<and>
   fst (deliver e sig info' s') = Some RunApp \<and>
   calls_since s' (snd (deliver e sig info' s')) =
     (if sig = SIGILL \<or> sig = SIGSEGV \<or> sig = SIGBUS \<or> sig = SIGFPE \<or> sig = SIGTRAP
      then [ForceSignal sig, SendSignal info']
      else if sig = SignalInterrupt \<or> sig = SIGPROF then []
      else [SendExternalSignal info']) \<and>
   (sig = SignalInterrupt \<or> sig = SIGPROF \<longrightarrow> snd (deliver e sig info' s') = s')"
proof -
  have 1: "\<not> Any at \<longrightarrow>
      dispatch e info at (Some ErrContextSignal) s = deliver e (Signo info) info s"
    by (simp add: dispatch_def contextSignal_def)
  have 2: "Any at2 \<and> HandleUserFault_ret e s2 = Some ferr \<and>
    (Execute at2 \<longrightarrow>
       LookupEmulate_ret e (observe (LookupEmulate (Addr info2))
          (invoke e (HandleUserFault (Addr info2) at2) s2)) = None) \<longrightarrow>
      dispatch e info2 at2 (Some ErrContextSignal) s2 =
        (if ferr = BusError then deliver e SIGBUS (info2\<lparr>Signo := SIGBUS\<rparr>)
         else deliver e (Signo info2) info2)
          (observe DebugDumpState (observe Debugf
             (if Execute at2
              then observe (LookupEmulate (Addr info2))
                     (invoke e (HandleUserFault (Addr info2) at2) s2)
              else invoke e (HandleUserFault (Addr info2) at2) s2)))"
    by (simp add: dispatch_def contextSignal_def Let_def)
  have 3: "fst (deliver e sig info' s') = Some RunApp" by (simp add: deliver_def)
  have 4: "sig = SignalInterrupt \<or> sig = SIGPROF \<longrightarrow> snd (deliver e sig info' s') = s'"
    by (auto simp: deliver_discards)
  from 1 2 3 4 deliver_calls [of s' e sig info'] show ?thesis by blast
qed

theorem platform_signal_classified_witness:
  "\<not> Any \<lparr>Read = False, Write = False, Execute = False\<rparr> \<and>
   dispatch (env0\<lparr>HandleUserFault_ret := (\<lambda>s. Some BusError)\<rparr>)
       \<lparr>Signo = 27, Code = 0, Addr = 0\<rparr> \<lparr>Read = False, Write = False, Execute = False\<rparr>
       (Some ErrContextSignal) ([], task0) = (Some RunApp, [], task0) \<and>
   Any \<lparr>Read = False, Write = True, Execute = False\<rparr> \<and>
   dispatch (env0\<lparr>HandleUserFault_ret := (\<lambda>s. Some BusError)\<rparr>)
       \<lparr>Signo = 11, Code = 0, Addr = 64\<rparr> \<lparr>Read = False, Write = True, Execute = False\<rparr>
       (Some ErrContextSignal) ([], task0) =
     (Some RunApp,
      [(HandleUserFault 64 \<lparr>Read = False, Write = True, Execute = False\<rparr>, task0),
       (Debugf, task0), (DebugDumpState, task0), (ForceSignal 7, task0),
       (SendSignal \<lparr>Signo = 7, Code = 0, Addr = 64\<rparr>, task0)], task0) \<and>
   calls_since ([], task0)
     (snd (deliver (env0\<lparr>HandleUserFault_ret := (\<lambda>s. Some BusError)\<rparr>) 17
        \<lparr>Signo = 17, Code = 0, Addr = 0\<rparr> ([], task0))) = [] \<and>
   snd (deliver (env0\<lparr>HandleUserFault_ret := (\<lambda>s. Some BusError)\<rparr>) 17
        \<lparr>Signo = 17, Code = 0, Addr = 0\<rparr> ([], task0)) = ([], task0)"
proof -
  let ?e = "env0\<lparr>HandleUserFault_ret := (\<lambda>s. Some BusError)\<rparr>"
  let ?a = "\<lparr>Read = False, Write = False, Execute = False\<rparr>"
  let ?a2 = "\<lparr>Read = False, Write = True, Execute = False\<rparr>"
  let ?i = "\<lparr>Signo = 27, Code = 0, Addr = 0\<rparr>"
  let ?i2 = "\<lparr>Signo = 11, Code = 0, Addr = 64\<rparr>"
  let ?i3 = "\<lparr>Signo = 17, Code = 0, Addr = 0\<rparr>"
  have a: "\<not> Any ?a" by (simp add: Any_def)
  have b: "Any ?a2 \<and> HandleUserFault_ret ?e ([], task0) = Some BusError \<and>
    (Execute ?a2 \<longrightarrow>
       LookupEmulate_ret ?e (observe (LookupEmulate (Addr ?i2))
          (invoke ?e (HandleUserFault (Addr ?i2) ?a2) ([], task0))) = None)"
    by (simp add: Any_def)
  have c: "(17::int) = SignalInterrupt \<or> 17 = SIGPROF" by (simp add: signal_defs)
  from platform_signal_classified
    [of ?a ?e ?i "([], task0)" ?a2 "([], task0)" BusError ?i2 17 ?i3 "([], task0)"] a b c
  show ?thesis
    by (simp add: deliver_def signal_defs env0_def invoke_def observe_def)
qed

subsection \<open>Errors of the switch\<close>

lemma entryCall_no_group_exit: "entryCall c \<Longrightarrow> \<not> isGroupExit c"
  by (cases c) simp_all

lemma runApp_execute_early:
  assumes n4: "atLine240 e s = None" and q: "\<And>c. entryCall c \<Longrightarrow> P c"
  shows "extends P s (snd (runApp_execute e s))"
proof (cases "atLine207 e s")
  case (Some s3)
  have "extends P s3 (snd (rseqStep e s3))" using q by (rule rseqStep_extends)
  moreover have "extends P s s3" by (rule atLine207_extends [OF Some]) (rule q)
  ultimately have "extends P s (snd (rseqStep e s3))"
    by (blast intro: extends_trans)
  moreover from n4 Some obtain r where "fst (rseqStep e s3) = Return r"
    by (auto simp: atLine240_def split: prod.splits flow.splits)
  ultimately show ?thesis
    by (auto simp: runApp_execute_reached n4 Some split: prod.splits flow.splits)
next
  case n3: None
  show ?thesis
  proof (cases "atLine198 e s")
    case (Some s2)
    have "extends P s2 (snd (maskStep e s2))" using q by (rule maskStep_extends)
    moreover have "extends P s s2" by (rule atLine198_extends [OF Some]) (rule q)
    ultimately have "extends P s (snd (maskStep e s2))"
      by (blast intro: extends_trans)
    moreover from n3 Some obtain r where "fst (maskStep e s2) = Return r"
      by (auto simp: atLine207_def split: prod.splits flow.splits)
    ultimately show ?thesis
      by (auto simp: runApp_execute_reached n4 n3 Some split: prod.splits flow.splits)
  next
    case n2: None
    show ?thesis
    proof (cases "atLine180 e s")
      case (Some s1)
      have "extends P s1 (snd (restartStep e s1))" using q by (rule restartStep_extends)
      moreover have "extends P s s1" by (rule atLine180_extends [OF Some]) (rule q)
      ultimately have "extends P s (snd (restartStep e s1))"
        by (blast intro: extends_trans)
      moreover from n2 Some obtain r where "fst (restartStep e s1) = Return r"
        by (auto simp: atLine198_def split: prod.splits flow.splits)
      ultimately show ?thesis
        by (auto simp: runApp_execute_reached n4 n3 n2 Some split: prod.splits flow.splits)
    next
      case None
      have "P Interrupted" using q by simp
      then have "extends P s (invoke e Interrupted s)"
        by (simp add: extends_invoke)
      then show ?thesis
        by (simp add: runApp_execute_reached n4 n3 n2 None)
    qed
  qed
qed

lemma runApp_execute_extends:
  assumes p: "\<And>c. appCall c \<Longrightarrow> P c"
  shows "extends P s (snd (runApp_execute e s))"
proof -
  have q: "\<And>c. entryCall c \<Longrightarrow> P c"
    using p by (case_tac c) simp_all
  show ?thesis
  proof (cases "atLine240 e s")
    case (Some s4)
    have "extends P s4 (snd (switchStep e s4))" using p by (rule switchStep_extends)
    moreover have "extends P s s4" by (rule atLine240_extends [OF Some]) (rule q)
    ultimately show ?thesis
      by (auto simp: runApp_execute_reached Some intro: extends_trans)
  next
    case None
    then show ?thesis using q by (rule runApp_execute_early)
  qed
qed

lemma platformSwitch_no_group_exit:
  "extends (\<lambda>c. \<not> isGroupExit c) s (snd (platformSwitch e s))"
  by (auto simp: platformSwitch_def singleStepPrologue_def Let_def split: prod.splits
      intro!: extends_invoke)

lemma tracerPull_no_group_exit:
  "extends (\<lambda>c. \<not> isGroupExit c) s (snd (tracerPull e err s))"
  by (auto simp: tracerPull_def split: option.splits intro!: extends_invoke extends_observe)

lemma deliver_no_group_exit:
  "extends (\<lambda>c. \<not> isGroupExit c) s (snd (deliver e sig info s))"
  by (auto simp: deliver_def intro!: extends_invoke)

lemma contextSignal_no_group_exit:
  "extends (\<lambda>c. \<not> isGroupExit c) s (snd (contextSignal e info at s))"
  by (auto simp: contextSignal_def Let_def split: option.splits
      intro!: extends_invoke extends_observe extends_trans [OF _ deliver_no_group_exit])

lemma dispatch_known_no_group_exit:
  "knownOutcome err \<Longrightarrow> extends (\<lambda>c. \<not> isGroupExit c) s (snd (dispatch e info at err s))"
  by (auto simp: dispatch_def split: option.splits perror.splits
      intro!: extends_invoke extends_assign contextSignal_no_group_exit)

lemma dispatch_unknown:
  "\<not> knownOutcome err \<Longrightarrow>
     dispatch e info at err s =
       (Some RunExit,
        invoke e (PrepareGroupExit (WaitStatusTerminationSignal SIGKILL)) (observe Warningf s))"
  by (cases err rule: knownOutcome.cases) (simp_all add: dispatch_def)

lemma switchStep_unfold:
  "platformSwitch e s4 = ((info, at, err), s5) \<Longrightarrow> tracerPull e err s5 = (err', s6) \<Longrightarrow>
     switchStep e s4 = dispatch e info at err' s6"
  by (simp add: switchStep_def)

text \<open>
  Claim C6, as amended. \<^verbatim>\<open>runApp.execute\<close> calls \<^verbatim>\<open>PrepareGroupExit\<close> in one place only,
  the \<^verbatim>\<open>default\<close> case of the \<^verbatim>\<open>switch\<close> of line 266. An entry that returns before the
  switch does not call it; neither do the switch and the traced task's state pull. When the
  value of \<^verbatim>\<open>err\<close> that line 266 dispatches on (the error of the switch or, for a traced
  task whose state pull failed, the error of that pull) is none of nil,
  \<^verbatim>\<open>ErrContextInterrupt\<close>, \<^verbatim>\<open>ErrContextSignal\<close>, \<^verbatim>\<open>ErrContextCPUPreempted\<close>, the
  function logs a warning, calls
  \<^verbatim>\<open>PrepareGroupExit(WaitStatusTerminationSignal(SIGKILL))\<close> and returns \<^verbatim>\<open>runExit\<close>;
  for the four known values it does not call \<^verbatim>\<open>PrepareGroupExit\<close>.
\<close>

theorem group_exit_only_on_unknown_error:
  "(atLine240 e1 s1 = None \<longrightarrow>
      list_all (\<lambda>c. \<not> isGroupExit c) (calls_since s1 (snd (runApp_execute e1 s1)))) \<and>
   (atLine240 e s = Some s4 \<and> platformSwitch e s4 = ((info, at, err), s5) \<and>
    tracerPull e err s5 = (err', s6) \<longrightarrow>
      runApp_execute e s = dispatch e info at err' s6 \<and>
      list_all (\<lambda>c. \<not> isGroupExit c) (calls_since s s6) \<and>
      (if knownOutcome err'
       then list_all (\<lambda>c. \<not> isGroupExit c) (calls_since s6 (snd (runApp_execute e s)))
       else fst (runApp_execute e s) = Some RunExit \<and>
            calls_since s6 (snd (runApp_execute e s)) =
              [Warningf, PrepareGroupExit (WaitStatusTerminationSignal SIGKILL)]))"
proof -
  have 1: "atLine240 e1 s1 = None \<longrightarrow>
      list_all (\<lambda>c. \<not> isGroupExit c) (calls_since s1 (snd (runApp_execute e1 s1)))"
    by (auto intro!: extends_calls runApp_execute_early entryCall_no_group_exit)
  have 2: "atLine240 e s = Some s4 \<and> platformSwitch e s4 = ((info, at, err), s5) \<and>
    tracerPull e err s5 = (err', s6) \<longrightarrow>
      runApp_execute e s = dispatch e info at err' s6 \<and>
      list_all (\<lambda>c. \<not> isGroupExit c) (calls_since s s6) \<and>
      (if knownOutcome err'
       then list_all (\<lambda>c. \<not> isGroupExit c) (calls_since s6 (snd (runApp_execute e s)))
       else fst (runApp_execute e s) = Some RunExit \<and>
            calls_since s6 (snd (runApp_execute e s)) =
              [Warningf, PrepareGroupExit (WaitStatusTerminationSignal SIGKILL)])"
  proof
    assume h: "atLine240 e s = Some s4 \<and> platformSwitch e s4 = ((info, at, err), s5) \<and>
      tracerPull e err s5 = (err', s6)"
    then have a: "atLine240 e s = Some s4" and b: "platformSwitch e s4 = ((info, at, err), s5)"
      and c: "tracerPull e err s5 = (err', s6)" by simp_all
    have x: "runApp_execute e s = dispatch e info at err' s6"
      using a switchStep_unfold [OF b c] by (simp add: runApp_execute_reached)
    have "extends (\<lambda>c. \<not> isGroupExit c) s s4"
      by (rule atLine240_extends [OF a]) (rule entryCall_no_group_exit)
    moreover have "extends (\<lambda>c. \<not> isGroupExit c) s4 s5"
      using platformSwitch_no_group_exit [of s4 e] b by simp
    moreover have "extends (\<lambda>c. \<not> isGroupExit c) s5 s6"
      using tracerPull_no_group_exit [of s5 e err] c by simp
    ultimately have "extends (\<lambda>c. \<not> isGroupExit c) s s6"
      by (blast intro: extends_trans)
    then have y: "list_all (\<lambda>c. \<not> isGroupExit c) (calls_since s s6)"
      by (rule extends_calls)
    have z: "if knownOutcome err'
       then list_all (\<lambda>c. \<not> isGroupExit c) (calls_since s6 (snd (runApp_execute e s)))
       else fst (runApp_execute e s) = Some RunExit \<and>
            calls_since s6 (snd (runApp_execute e s)) =
              [Warningf, PrepareGroupExit (WaitStatusTerminationSignal SIGKILL)]"
    proof (cases "knownOutcome err'")
      case True
      then show ?thesis
        by (simp add: x extends_calls [OF dispatch_known_no_group_exit])
    next
      case False
      then show ?thesis
        by (simp add: x dispatch_unknown calls_since_def since_def)
    qed
    from x y z show "runApp_execute e s = dispatch e info at err' s6 \<and>
      list_all (\<lambda>c. \<not> isGroupExit c) (calls_since s s6) \<and>
      (if knownOutcome err'
       then list_all (\<lambda>c. \<not> isGroupExit c) (calls_since s6 (snd (runApp_execute e s)))
       else fst (runApp_execute e s) = Some RunExit \<and>
            calls_since s6 (snd (runApp_execute e s)) =
              [Warningf, PrepareGroupExit (WaitStatusTerminationSignal SIGKILL)])" by simp
  qed
  from 1 2 show ?thesis by blast
qed

theorem group_exit_only_on_unknown_error_witness:
  "atLine240 (env0\<lparr>interrupted_ret := (\<lambda>s. True)\<rparr>) ([], task0) = None \<and>
   list_all (\<lambda>c. \<not> isGroupExit c)
     (calls_since ([], task0) (snd (runApp_execute (env0\<lparr>interrupted_ret := (\<lambda>s. True)\<rparr>) ([], task0)))) \<and>
   atLine240 (env0\<lparr>Switch_ret := (\<lambda>s. (SignalInfoPriv 0, \<lparr>Read = False, Write = False, Execute = False\<rparr>, Some (ErrOther 9)))\<rparr>)
       ([], task0) = Some ([(Interrupted, task0)], task0) \<and>
   \<not> knownOutcome (Some (ErrOther 9)) \<and>
   runApp_execute (env0\<lparr>Switch_ret := (\<lambda>s. (SignalInfoPriv 0, \<lparr>Read = False, Write = False, Execute = False\<rparr>, Some (ErrOther 9)))\<rparr>)
       ([], task0) =
     (Some RunExit,
      [(Interrupted, task0),
       (AccountTaskGoroutineEnter TaskGoroutineRunningApp, task0),
       (Switch, task0),
       (AccountTaskGoroutineLeave TaskGoroutineRunningApp, task0),
       (Warningf, task0),
       (PrepareGroupExit (WaitStatusTerminationSignal 9), task0)], task0)"
proof -
  let ?e1 = "env0\<lparr>interrupted_ret := (\<lambda>s. True)\<rparr>"
  let ?i = "SignalInfoPriv 0"
  let ?a = "\<lparr>Read = False, Write = False, Execute = False\<rparr>"
  let ?e = "env0\<lparr>Switch_ret := (\<lambda>s. (?i, ?a, Some (ErrOther 9)))\<rparr>"
  let ?s4 = "([(Interrupted, task0)], task0)"
  let ?s5 = "([(Interrupted, task0),
       (AccountTaskGoroutineEnter TaskGoroutineRunningApp, task0),
       (Switch, task0),
       (AccountTaskGoroutineLeave TaskGoroutineRunningApp, task0)], task0)"
  have a: "atLine240 ?e1 ([], task0) = None"
    by (simp add: atLine240_def atLine207_def atLine198_def atLine180_def)
  have b: "atLine240 ?e ([], task0) = Some ?s4"
    by (simp add: atLine240_def atLine207_def atLine198_def atLine180_def taskWorkStep_def
        restartStep_def maskStep_def rseqStep_def env0_def task0_def invoke_def)
  have c: "platformSwitch ?e ?s4 = ((?i, ?a, Some (ErrOther 9)), ?s5)"
    by (simp add: platformSwitch_def singleStepPrologue_def env0_def invoke_def)
  have d: "tracerPull ?e (Some (ErrOther 9)) ?s5 = (Some (ErrOther 9), ?s5)"
    by (simp add: tracerPull_def env0_def)
  from group_exit_only_on_unknown_error
    [of ?e1 "([], task0)" ?e "([], task0)" ?s4 ?i ?a "Some (ErrOther 9)" ?s5 "Some (ErrOther 9)" ?s5]
    a b c d
  show ?thesis
    by (simp add: dispatch_def env0_def invoke_def observe_def signal_defs)
qed

text \<open>
  Claim C6 as stated fails in its second half: for a traced task the switch succeeds (its
  error is nil, a known outcome), the state pull of line 260 fails, and the whole thread
  group is made to exit with \<^verbatim>\<open>SIGKILL\<close>: a state-pull failure, not a switch error,
  affects more than the single task.
\<close>

theorem group_exit_after_successful_switch:
  "knownOutcome (snd (snd (Switch_ret
       (env0\<lparr>hasTracer := (\<lambda>s. True), PullFullState_ret := (\<lambda>s. Some (ErrOther 5))\<rparr>)
       ([(Interrupted, task0), (AccountTaskGoroutineEnter TaskGoroutineRunningApp, task0)], task0)))) \<and>
   runApp_execute (env0\<lparr>hasTracer := (\<lambda>s. True), PullFullState_ret := (\<lambda>s. Some (ErrOther 5))\<rparr>)
       ([], task0) =
     (Some RunExit,
      [(Interrupted, task0),
       (AccountTaskGoroutineEnter TaskGoroutineRunningApp, task0),
       (Switch, task0),
       (AccountTaskGoroutineLeave TaskGoroutineRunningApp, task0),
       (PullFullState, task0),
       (Warningf, task0),
       (Warningf, task0),
       (PrepareGroupExit (WaitStatusTerminationSignal 9), task0)], task0)"
  by (simp add: runApp_execute_def taskWorkStep_def restartStep_def maskStep_def rseqStep_def
      switchStep_def platformSwitch_def singleStepPrologue_def tracerPull_def dispatch_def
      env0_def task0_def invoke_def observe_def signal_defs)

text \<open>
  Claim C9. When the task has a tracer after the switch, the next call of
  \<^verbatim>\<open>runApp.execute\<close> is \<^verbatim>\<open>PullFullState\<close>; an error of that pull takes the place of
  the switch's own error, whatever that was. When the error is none of the three sentinels
  of package platform, the function logs, calls
  \<^verbatim>\<open>PrepareGroupExit(WaitStatusTerminationSignal(SIGKILL))\<close> and returns \<^verbatim>\<open>runExit\<close>:
  the thread group exits, where the pull failure of line 181 prepares the exit of the one
  task with \<^verbatim>\<open>PrepareExit\<close>.
\<close>

theorem traced_pull_failure_kills_group:
  assumes "platformSwitch e s4 = ((info, at, err), s5)" and "hasTracer e s5"
  shows "hd (since s5 (snd (switchStep e s4))) = (PullFullState, snd s5) \<and>
    fst (tracerPull e err s5) =
      (case PullFullState_ret e s5 of Some e' \<Rightarrow> Some e' | None \<Rightarrow> err) \<and>
    (PullFullState_ret e s5 = Some (ErrOther x) \<longrightarrow>
       fst (switchStep e s4) = Some RunExit \<and>
       calls_since s5 (snd (switchStep e s4)) =
         [PullFullState, Warningf, Warningf,
          PrepareGroupExit (WaitStatusTerminationSignal SIGKILL)])"
proof -
  obtain err' s6 where p: "tracerPull e err s5 = (err', s6)"
    by (cases "tracerPull e err s5")
  have u: "switchStep e s4 = dispatch e info at err' s6"
    by (rule switchStep_unfold [OF assms(1) p])
  have s6: "fst s6 = fst s5 @ (PullFullState, snd s5) # since (invoke e PullFullState s5) s6"
    using assms(2) p by (auto simp: tracerPull_def since_def split: option.splits)
  have "extends (\<lambda>c. True) s6 (snd (dispatch e info at err' s6))"
    by (rule dispatch_extends) simp
  then have "fst (snd (dispatch e info at err' s6)) =
      fst s6 @ since s6 (snd (dispatch e info at err' s6))"
    by (rule extendsD [THEN conjunct1])
  then have "fst (snd (switchStep e s4)) =
      fst s5 @ ((PullFullState, snd s5) # since (invoke e PullFullState s5) s6 @
                since s6 (snd (switchStep e s4)))"
    using s6 u by simp
  then have "since s5 (snd (switchStep e s4)) =
      (PullFullState, snd s5) # since (invoke e PullFullState s5) s6 @ since s6 (snd (switchStep e s4))"
    by (rule since_append)
  then have 1: "hd (since s5 (snd (switchStep e s4))) = (PullFullState, snd s5)" by simp
  have 2: "fst (tracerPull e err s5) =
      (case PullFullState_ret e s5 of Some e' \<Rightarrow> Some e' | None \<Rightarrow> err)"
    using assms(2) by (simp add: tracerPull_def split: option.splits)
  have 3: "PullFullState_ret e s5 = Some (ErrOther x) \<longrightarrow>
       fst (switchStep e s4) = Some RunExit \<and>
       calls_since s5 (snd (switchStep e s4)) =
         [PullFullState, Warningf, Warningf,
          PrepareGroupExit (WaitStatusTerminationSignal SIGKILL)]"
  proof
    assume f: "PullFullState_ret e s5 = Some (ErrOther x)"
    then have "tracerPull e err s5 = (Some (ErrOther x), observe Warningf (invoke e PullFullState s5))"
      using assms(2) by (simp add: tracerPull_def)
    from switchStep_unfold [OF assms(1) this]
    show "fst (switchStep e s4) = Some RunExit \<and>
       calls_since s5 (snd (switchStep e s4)) =
         [PullFullState, Warningf, Warningf,
          PrepareGroupExit (WaitStatusTerminationSignal SIGKILL)]"
      by (simp add: dispatch_def calls_since_def since_def)
  qed
  from 1 2 3 show ?thesis by simp
qed

theorem traced_pull_failure_kills_group_witness:
  "platformSwitch (env0\<lparr>hasTracer := (\<lambda>s. True), PullFullState_ret := (\<lambda>s. Some (ErrOther 5))\<rparr>)
       ([], task0) =
     ((\<lparr>Signo = 0, Code = 0, Addr = 0\<rparr>, \<lparr>Read = False, Write = False, Execute = False\<rparr>, None),
      [(AccountTaskGoroutineEnter TaskGoroutineRunningApp, task0),
       (Switch, task0),
       (AccountTaskGoroutineLeave TaskGoroutineRunningApp, task0)], task0) \<and>
   fst (switchStep (env0\<lparr>hasTracer := (\<lambda>s. True), PullFullState_ret := (\<lambda>s. Some (ErrOther 5))\<rparr>)
       ([], task0)) = Some RunExit \<and>
   map fst (fst (snd (switchStep (env0\<lparr>hasTracer := (\<lambda>s. True), PullFullState_ret := (\<lambda>s. Some (ErrOther 5))\<rparr>)
       ([], task0)))) =
     [AccountTaskGoroutineEnter TaskGoroutineRunningApp, Switch,
      AccountTaskGoroutineLeave TaskGoroutineRunningApp,
      PullFullState, Warningf, Warningf, PrepareGroupExit (WaitStatusTerminationSignal 9)]"
proof -
  let ?e = "env0\<lparr>hasTracer := (\<lambda>s. True), PullFullState_ret := (\<lambda>s. Some (ErrOther 5))\<rparr>"
  let ?i = "\<lparr>Signo = 0, Code = 0, Addr = 0\<rparr>"
  let ?a = "\<lparr>Read = False, Write = False, Execute = False\<rparr>"
  let ?s5 = "([(AccountTaskGoroutineEnter TaskGoroutineRunningApp, task0), (Switch, task0),
       (AccountTaskGoroutineLeave TaskGoroutineRunningApp, task0)], task0)"
  have a: "platformSwitch ?e ([], task0) = ((?i, ?a, None), ?s5)"
    by (simp add: platformSwitch_def singleStepPrologue_def env0_def task0_def invoke_def)
  have b: "hasTracer ?e ?s5" by simp
  have c: "PullFullState_ret ?e ?s5 = Some (ErrOther 5)" by simp
  from traced_pull_failure_kills_group [OF a b, of 5] a c show ?thesis
    by (simp add: switchStep_def tracerPull_def dispatch_def env0_def invoke_def observe_def
        signal_defs)
qed

subsection \<open>What the calls leave unchanged\<close>

lemma keeps_invoke: "preserved e P \<Longrightarrow> keeps P s \<Longrightarrow> keeps P (invoke e c s)"
  unfolding preserved_def by blast

lemma keeps_observe [simp]: "keeps P (observe c s) = keeps P s"
  by (simp add: keeps_def)

lemma keeps_assign:
  "stopCount (f (snd s)) = stopCount (snd s) \<Longrightarrow> runState (f (snd s)) = runState (snd s) \<Longrightarrow>
     keeps P (assign f s) = keeps P s"
  by (simp add: keeps_def)

lemma foldl_TaskWork_keeps:
  assumes "preserved e P"
  shows "keeps P s \<Longrightarrow> keeps P (foldl (\<lambda>s' w. invoke e (TaskWork w) s') s ws)"
  by (induction ws arbitrary: s) (simp_all add: keeps_invoke [OF assms])

lemma taskWorkStep_keeps:
  assumes "preserved e P"
    and "keeps P s"
  shows "keeps P (taskWorkStep e s)"
  using assms(2)
  by (auto simp: taskWorkStep_def Let_def keeps_assign intro!: foldl_TaskWork_keeps [OF assms(1)])

lemma restartStep_keeps:
  assumes "preserved e P"
    and "keeps P s"
  shows "keeps P (snd (restartStep e s))"
  using assms(2)
  by (auto simp: restartStep_def Let_def keeps_assign split: option.splits
      intro!: keeps_invoke [OF assms(1)])

lemma maskStep_keeps:
  assumes "preserved e P"
    and "keeps P s"
  shows "keeps P (snd (maskStep e s))"
  using assms(2)
  by (auto simp: maskStep_def Let_def keeps_assign intro!: keeps_invoke [OF assms(1)])

lemma rseqStep_keeps:
  assumes "preserved e P"
    and "keeps P s"
  shows "keeps P (snd (rseqStep e s))"
  using assms(2)
  by (auto simp: rseqStep_def rseqFail_def Let_def keeps_assign split: option.splits
      intro!: keeps_invoke [OF assms(1)])

lemma deliver_keeps:
  assumes "preserved e P"
    and "keeps P s"
  shows "keeps P (snd (deliver e sig info s))"
  using assms(2)
  by (auto simp: deliver_def intro!: keeps_invoke [OF assms(1)])

lemma contextSignal_keeps:
  assumes "preserved e P"
    and "keeps P s"
  shows "keeps P (snd (contextSignal e info at s))"
  using assms(2)
  by (auto simp: contextSignal_def Let_def split: option.splits
      intro!: keeps_invoke [OF assms(1)] deliver_keeps [OF assms(1)])

lemma dispatch_keeps:
  assumes "preserved e P"
    and "keeps P s"
  shows "keeps P (snd (dispatch e info at err s))"
  using assms(2)
  by (auto simp: dispatch_def keeps_assign split: option.splits perror.splits
      intro!: keeps_invoke [OF assms(1)] contextSignal_keeps [OF assms(1)])

lemma platformSwitch_keeps:
  assumes "preserved e P"
    and "keeps P s"
  shows "keeps P (snd (platformSwitch e s))"
  using assms(2)
  by (auto simp: platformSwitch_def singleStepPrologue_def Let_def split: prod.splits
      intro!: keeps_invoke [OF assms(1)])

lemma tracerPull_keeps:
  assumes "preserved e P"
    and "keeps P s"
  shows "keeps P (snd (tracerPull e err s))"
  using assms(2)
  by (auto simp: tracerPull_def split: option.splits intro!: keeps_invoke [OF assms(1)])

lemma switchStep_keeps:
  assumes "preserved e P"
    and "keeps P s"
  shows "keeps P (snd (switchStep e s))"
proof -
  obtain r s5 where a: "platformSwitch e s = (r, s5)" by (cases "platformSwitch e s")
  obtain info at err where r: "r = (info, at, err)" by (cases r)
  obtain err' s6 where b: "tracerPull e err s5 = (err', s6)" by (cases "tracerPull e err s5")
  have "keeps P s5" using platformSwitch_keeps [OF assms] a by simp
  then have "keeps P s6" using tracerPull_keeps [OF assms(1), of s5 err] b by simp
  then have "keeps P (snd (dispatch e info at err' s6))" by (rule dispatch_keeps [OF assms(1)])
  then show ?thesis using a b r by (simp add: switchStep_def)
qed

lemma runApp_execute_keeps:
  assumes "preserved e P"
    and "keeps P s"
  shows "keeps P (snd (runApp_execute e s))"
proof -
  note k = keeps_invoke [OF assms(1)]
  have 0: "keeps P (invoke e Interrupted s)" using assms(2) by (rule k)
  then have 1: "keeps P (taskWorkStep e (invoke e Interrupted s))"
    by (rule taskWorkStep_keeps [OF assms(1)])
  then have 2: "keeps P (snd (restartStep e (taskWorkStep e (invoke e Interrupted s))))"
    by (rule restartStep_keeps [OF assms(1)])
  then have 3: "keeps P (snd (maskStep e (snd (restartStep e (taskWorkStep e (invoke e Interrupted s))))))"
    by (rule maskStep_keeps [OF assms(1)])
  then have 4: "keeps P (snd (rseqStep e (snd (maskStep e (snd (restartStep e (taskWorkStep e (invoke e Interrupted s))))))))"
    by (rule rseqStep_keeps [OF assms(1)])
  then have 5: "keeps P (snd (switchStep e (snd (rseqStep e (snd (maskStep e (snd (restartStep e (taskWorkStep e (invoke e Interrupted s))))))))))"
    by (rule switchStep_keeps [OF assms(1)])
  from 0 2 3 4 5 show ?thesis
    by (auto simp: runApp_execute_def Let_def split: prod.splits flow.splits)
qed

subsection \<open>The driver loop\<close>

lemma count_since_trans:
  assumes "extends P s s'" and "extends Q s' s''"
  shows "count_list (calls_since s s'') x =
    count_list (calls_since s s') x + count_list (calls_since s' s'') x"
  by (simp add: calls_since_def since_trans [OF assms])

lemma count_extends_0:
  assumes "extends P s s'" and "\<not> P x"
  shows "count_list (calls_since s s') x = 0"
proof -
  have "list_all P (calls_since s s')" using assms(1) by (rule extends_calls)
  then have "x \<notin> set (calls_since s s')" using assms(2) by (auto simp: list_all_iff)
  then show ?thesis by simp
qed

lemma waitLoop_extends:
  "P EndStopCondWait \<Longrightarrow> extends P s (state_of (waitLoop e n s))"
proof (induction n arbitrary: s)
  case 0
  then show ?case by simp
next
  case (Suc n)
  have "extends P s (invoke e EndStopCondWait s)"
    using Suc.prems by (simp add: extends_invoke)
  moreover have "extends P (invoke e EndStopCondWait s)
      (state_of (waitLoop e n (invoke e EndStopCondWait s)))"
    using Suc.prems by (rule Suc.IH)
  ultimately have "extends P s (state_of (waitLoop e n (invoke e EndStopCondWait s)))"
    by (rule extends_trans)
  then show ?case using Suc.prems by (simp add: extends_observe)
qed

lemma waitLoop_keeps:
  "preserved e P \<Longrightarrow> keeps P s \<Longrightarrow> keeps P (state_of (waitLoop e n s))"
  by (induction n arbitrary: s) (simp_all add: keeps_invoke)

lemma waitLoop_not_Panicked: "waitLoop e n s \<noteq> Panicked s'"
  by (induction n arbitrary: s) simp_all

lemma doStop_extends:
  assumes "\<And>c. doStopCall c \<Longrightarrow> P c"
  shows "extends P s (state_of (doStop e n s))"
proof (cases "stopCount (snd s) = 0")
  case True
  then show ?thesis using assms by (simp add: doStop_def extends_observe)
next
  case False
  let ?s4 = "invoke e (GoroutineStoppedAdd (- 1))
      (invoke e (RunningGoroutinesAdd (- 1))
        (invoke e (AccountTaskGoroutineEnter TaskGoroutineStopped)
          (invoke e Deactivate (observe DoStop s))))"
  have a: "extends P s ?s4"
    using assms by (auto intro!: extends_invoke extends_observe)
  have b: "extends P ?s4 (state_of (waitLoop e n ?s4))"
    using assms by (simp add: waitLoop_extends)
  have c: "extends P s (state_of (waitLoop e n ?s4))"
    using a b by (rule extends_trans)
  show ?thesis
  proof (cases "waitLoop e n ?s4")
    case (Done s5)
    then have "extends P s s5" using c by simp
    then have "extends P s (invoke e Activate
                      (invoke e (AccountTaskGoroutineLeave TaskGoroutineStopped)
                        (invoke e (RunningGoroutinesAdd 1)
                          (invoke e (GoroutineStoppedAdd 1) s5))))"
      using assms by (auto intro!: extends_invoke)
    then show ?thesis using False Done by (simp add: doStop_def Let_def)
  next
    case (Blocked s5)
    then show ?thesis using False c by (simp add: doStop_def Let_def)
  next
    case (OutOfFuel s5)
    then show ?thesis using False c by (simp add: doStop_def Let_def)
  next
    case (Panicked s5)
    then show ?thesis using False c by (simp add: doStop_def Let_def)
  qed
qed

lemma doStop_keeps:
  assumes "preserved e P" and "keeps P s"
  shows "keeps P (state_of (doStop e n s))"
proof (cases "stopCount (snd s) = 0")
  case True
  then show ?thesis using assms by (simp add: doStop_def)
next
  case False
  let ?s4 = "invoke e (GoroutineStoppedAdd (- 1))
      (invoke e (RunningGoroutinesAdd (- 1))
        (invoke e (AccountTaskGoroutineEnter TaskGoroutineStopped)
          (invoke e Deactivate (observe DoStop s))))"
  have "keeps P ?s4" using assms by (simp add: keeps_invoke)
  then have c: "keeps P (state_of (waitLoop e n ?s4))"
    using assms(1) by (simp add: waitLoop_keeps)
  show ?thesis
  proof (cases "waitLoop e n ?s4")
    case (Done s5)
    then have "keeps P s5" using c by simp
    then show ?thesis using False Done assms(1) by (simp add: doStop_def Let_def keeps_invoke)
  next
    case (Blocked s5)
    then show ?thesis using False c by (simp add: doStop_def Let_def)
  next
    case (OutOfFuel s5)
    then show ?thesis using False c by (simp add: doStop_def Let_def)
  next
    case (Panicked s5)
    then show ?thesis using False c by (simp add: doStop_def Let_def)
  qed
qed

lemma doStop_not_Panicked: "doStop e n s \<noteq> Panicked s'"
  by (simp add: doStop_def Let_def waitLoop_not_Panicked split: outcome.splits)

lemma teardown_extends:
  "(\<And>c. teardownCall c \<Longrightarrow> P c) \<Longrightarrow> extends P s (teardown e s)"
  by (auto simp: teardown_def Let_def intro!: extends_invoke extends_observe extends_assign)

lemma teardown_count: "count_list (calls_since s (teardown e s)) DecLiveTasks = 1"
  by (simp add: teardown_def Let_def calls_since_def since_def)
lemma execute_exit:
  assumes "exitPath r"
  shows "execute e r s = (execute_ret e s, invoke e (ExecuteState r) s)"
  using assms by (cases r) (simp_all add: execute_def)

lemma runLoop_exit:
  assumes pr: "preserved e onExitPath" and ex: "exitStays e"
  shows "keeps onExitPath s \<Longrightarrow>
    extends (\<lambda>c. c \<noteq> Switch \<and> c \<noteq> PullFullState) s (state_of (runLoop e n s)) \<and>
    count_list (calls_since s (state_of (runLoop e n s))) DecLiveTasks =
      (if isDone (runLoop e n s) then 1 else 0)"
proof (induction n arbitrary: s)
  case 0
  show ?case by (simp add: calls_since_def)
next
  case (Suc n)
  let ?Q = "\<lambda>c. c \<noteq> Switch \<and> c \<noteq> PullFullState"
  let ?P = "\<lambda>c. c \<noteq> Switch \<and> c \<noteq> PullFullState \<and> c \<noteq> DecLiveTasks"
  have d: "extends ?P s (state_of (doStop e n s))"
    by (rule doStop_extends) (case_tac c, simp_all)
  have k: "keeps onExitPath (state_of (doStop e n s))"
    using pr Suc.prems by (rule doStop_keeps)
  show ?case
  proof (cases "doStop e n s")
    case (Done s1)
    from k Done have k1: "keeps onExitPath s1" by simp
    then obtain r where r: "runState (snd s1) = Some r" "exitPath r"
      by (auto simp: keeps_def onExitPath_def split: option.splits)
    let ?s2 = "invoke e (ExecuteState r) s1"
    have x: "execute e r s1 = (execute_ret e s1, ?s2)"
      using r(2) by (rule execute_exit)
    have d1: "extends ?P s s1" using d Done by simp
    then have d2: "extends ?P s ?s2" by (simp add: extends_invoke)
    show ?thesis
    proof (cases "execute_ret e s1")
      case None
      let ?s3 = "assign (\<lambda>t. t\<lparr>runState := None\<rparr>) ?s2"
      have rl: "runLoop e (Suc n) s = Done (teardown e ?s3)"
        using Done r(1) x None by simp
      have d3: "extends ?P s ?s3" using d2 by (rule extends_assign)
      have t: "extends ?Q ?s3 (teardown e ?s3)"
        by (rule teardown_extends) (case_tac c, simp_all)
      have "extends ?Q s ?s3" using d3 by (rule extends_mono [rotated]) simp
      then have 1: "extends ?Q s (teardown e ?s3)" using t by (rule extends_trans)
      have "count_list (calls_since s (teardown e ?s3)) DecLiveTasks =
          count_list (calls_since s ?s3) DecLiveTasks +
          count_list (calls_since ?s3 (teardown e ?s3)) DecLiveTasks"
        using d3 t by (rule count_since_trans)
      moreover have "count_list (calls_since s ?s3) DecLiveTasks = 0"
        using d3 by (rule count_extends_0) simp
      ultimately have 2: "count_list (calls_since s (teardown e ?s3)) DecLiveTasks = 1"
        by (simp add: teardown_count)
      from 1 2 rl show ?thesis by simp
    next
      case (Some r')
      let ?s3 = "assign (\<lambda>t. t\<lparr>runState := Some r'\<rparr>) ?s2"
      have rl: "runLoop e (Suc n) s = runLoop e n ?s3"
        using Done r(1) x Some by simp
      have "case execute_ret e s1 of None \<Rightarrow> True | Some r \<Rightarrow> exitPath r"
        using ex k1 unfolding exitStays_def by blast
      then have "exitPath r'" using Some by simp
      then have "keeps onExitPath ?s3" by (simp add: keeps_def onExitPath_def)
      from Suc.IH [OF this]
      have ih: "extends ?Q ?s3 (state_of (runLoop e n ?s3))"
        "count_list (calls_since ?s3 (state_of (runLoop e n ?s3))) DecLiveTasks =
          (if isDone (runLoop e n ?s3) then 1 else 0)" by simp_all
      have d3: "extends ?P s ?s3" using d2 by (rule extends_assign)
      have "extends ?Q s ?s3" using d3 by (rule extends_mono [rotated]) simp
      then have 1: "extends ?Q s (state_of (runLoop e n ?s3))"
        using ih(1) by (rule extends_trans)
      have "count_list (calls_since s (state_of (runLoop e n ?s3))) DecLiveTasks =
          count_list (calls_since s ?s3) DecLiveTasks +
          count_list (calls_since ?s3 (state_of (runLoop e n ?s3))) DecLiveTasks"
        using d3 ih(1) by (rule count_since_trans)
      moreover have "count_list (calls_since s ?s3) DecLiveTasks = 0"
        using d3 by (rule count_extends_0) simp
      ultimately have 2: "count_list (calls_since s (state_of (runLoop e n ?s3))) DecLiveTasks =
          (if isDone (runLoop e n ?s3) then 1 else 0)"
        using ih(2) by simp
      from 1 2 rl show ?thesis by simp
    qed
  next
    case (Blocked s1)
    then have rl: "runLoop e (Suc n) s = Blocked s1" by simp
    have d1: "extends ?P s s1" using d Blocked by simp
    then have "extends ?Q s s1" by (rule extends_mono [rotated]) simp
    moreover have "count_list (calls_since s s1) DecLiveTasks = 0"
      using d1 by (rule count_extends_0) simp
    ultimately show ?thesis using rl by simp
  next
    case (OutOfFuel s1)
    then have rl: "runLoop e (Suc n) s = OutOfFuel s1" by simp
    have d1: "extends ?P s s1" using d OutOfFuel by simp
    then have "extends ?Q s s1" by (rule extends_mono [rotated]) simp
    moreover have "count_list (calls_since s s1) DecLiveTasks = 0"
      using d1 by (rule count_extends_0) simp
    ultimately show ?thesis using rl by simp
  next
    case (Panicked s1)
    then show ?thesis by (simp add: doStop_not_Panicked)
  qed
qed

lemma doStop_open:
  "stopCount (snd s) = 0 \<Longrightarrow> doStop e n s = Done (observe DoStop s)"
  by (simp add: doStop_def)

lemma runLoop_exit_done:
  assumes ns: "preserved e notStopped" and ad: "exitAdvances e"
  shows "keeps notStopped s \<Longrightarrow> runState (snd s) = Some r \<Longrightarrow> exitPath r \<Longrightarrow>
    exitRank r \<le> n \<Longrightarrow> isDone (runLoop e n s)"
proof (induction n arbitrary: s r)
  case 0
  then show ?case by (cases r) simp_all
next
  case (Suc n)
  let ?s1 = "observe DoStop s"
  let ?s2 = "invoke e (ExecuteState r) ?s1"
  have z: "stopCount (snd s) = 0" using Suc.prems(1) by (simp add: keeps_def notStopped_def)
  have d: "doStop e n s = Done ?s1" using z by (rule doStop_open)
  have x: "execute e r ?s1 = (execute_ret e ?s1, ?s2)"
    using Suc.prems(3) by (rule execute_exit)
  have k2: "keeps notStopped ?s2"
    using ns Suc.prems(1) by (simp add: keeps_invoke)
  have a: "case execute_ret e ?s1 of None \<Rightarrow> True
      | Some r' \<Rightarrow> exitPath r' \<and> exitRank r' < exitRank r"
    using ad Suc.prems(2,3) unfolding exitAdvances_def
    by (drule_tac x = "?s1" in spec) simp
  show ?case
  proof (cases "execute_ret e ?s1")
    case None
    then show ?thesis using d x Suc.prems(2) by simp
  next
    case (Some r')
    let ?s3 = "assign (\<lambda>t. t\<lparr>runState := Some r'\<rparr>) ?s2"
    from a Some have r': "exitPath r'" "exitRank r' < exitRank r" by simp_all
    have k3: "keeps notStopped ?s3" using k2 by (simp add: keeps_def notStopped_def)
    have rs: "runState (snd ?s3) = Some r'" by simp
    have le: "exitRank r' \<le> n" using r'(2) Suc.prems(4) by simp
    have "isDone (runLoop e n ?s3)" by (rule Suc.IH [OF k3 rs r'(1) le])
    then show ?thesis using d x Some Suc.prems(2) by simp
  qed
qed

subsection \<open>A state pull that fails before the restart\<close>

text \<open>
  Claim C5. On an entry into \<^verbatim>\<open>runApp.execute\<close> that finds \<^verbatim>\<open>haveSyscallReturn\<close> set at
  line 180 and whose \<^verbatim>\<open>PullFullState\<close> fails with \<open>err\<close>: the function returns
  \<^verbatim>\<open>runExit\<close>; after the one pull it has logged a warning and called
  \<^verbatim>\<open>PrepareExit(WaitStatusExit(int32(ExtractErrno(err, -1))))\<close>, and nothing else; before
  the pull it has neither pulled nor switched. The states of the exit path are not in
  task\_run.go: when no call takes the task off the exit path and an exit state is followed
  by an exit state or by nil, the loop of \<^verbatim>\<open>Task.run\<close> that goes on from \<^verbatim>\<open>runExit\<close>
  never pulls the state or switches again, and decrements \<^verbatim>\<open>liveTasks\<close> once if the
  task goroutine returns and not at all before. When moreover the stop count stays zero and
  the exit states go forward, three iterations are enough for the task goroutine to return.
\<close>

theorem pull_failure_exits_task:
  assumes "atLine180 e s = Some s1"
    and "haveSyscallReturn (snd s1)"
    and "PullFullState_ret e s1 = Some err"
    and "preserved e onExitPath"
    and "exitStays e"
  shows "runApp_execute e s = (Some RunExit, snd (restartStep e s1)) \<and>
    calls_since s1 (snd (restartStep e s1)) =
      [PullFullState, Warningf,
       PrepareExit (WaitStatusExit (int32 (ExtractErrno e err (- 1))))] \<and>
    list_all (\<lambda>c. c \<noteq> Switch \<and> c \<noteq> PullFullState) (calls_since s s1) \<and>
    list_all (\<lambda>c. c \<noteq> Switch \<and> c \<noteq> PullFullState)
      (calls_since (assign (\<lambda>t. t\<lparr>runState := Some RunExit\<rparr>) (snd (runApp_execute e s)))
         (state_of (runLoop e n
            (assign (\<lambda>t. t\<lparr>runState := Some RunExit\<rparr>) (snd (runApp_execute e s)))))) \<and>
    count_list
      (calls_since (assign (\<lambda>t. t\<lparr>runState := Some RunExit\<rparr>) (snd (runApp_execute e s)))
         (state_of (runLoop e n
            (assign (\<lambda>t. t\<lparr>runState := Some RunExit\<rparr>) (snd (runApp_execute e s))))))
      DecLiveTasks =
      (if isDone (runLoop e n
            (assign (\<lambda>t. t\<lparr>runState := Some RunExit\<rparr>) (snd (runApp_execute e s))))
       then 1 else 0) \<and>
    (keeps notStopped s \<and> preserved e notStopped \<and> exitAdvances e \<and> 3 \<le> n \<longrightarrow>
       isDone (runLoop e n
            (assign (\<lambda>t. t\<lparr>runState := Some RunExit\<rparr>) (snd (runApp_execute e s)))))"
proof -
  let ?s3 = "assign (\<lambda>t. t\<lparr>runState := Some RunExit\<rparr>) (snd (runApp_execute e s))"
  have r: "restartStep e s1 =
      (Return (Some RunExit),
       invoke e (PrepareExit (WaitStatusExit (int32 (ExtractErrno e err (- 1)))))
         (observe Warningf (invoke e PullFullState s1)))"
    using assms(2,3) by (simp add: restartStep_def)
  have n2: "atLine198 e s = None" using assms(1) r by (simp add: atLine198_def)
  then have n3: "atLine207 e s = None" by (simp add: atLine207_def)
  then have n4: "atLine240 e s = None" by (simp add: atLine240_def)
  have 1: "runApp_execute e s = (Some RunExit, snd (restartStep e s1))"
    using assms(1) r n2 n3 n4 by (simp add: runApp_execute_reached)
  have 2: "calls_since s1 (snd (restartStep e s1)) =
      [PullFullState, Warningf,
       PrepareExit (WaitStatusExit (int32 (ExtractErrno e err (- 1))))]"
    by (simp add: r calls_since_def since_def)
  have s1: "s1 = taskWorkStep e (invoke e Interrupted s)"
    using assms(1) by (simp add: atLine180_def split: if_splits)
  have "extends (\<lambda>c. c \<noteq> Switch \<and> c \<noteq> PullFullState) s s1"
    unfolding s1
    by (rule extends_trans [OF _ taskWorkStep_extends]) (simp_all add: extends_invoke)
  then have 3: "list_all (\<lambda>c. c \<noteq> Switch \<and> c \<noteq> PullFullState) (calls_since s s1)"
    by (rule extends_calls)
  have k: "keeps onExitPath ?s3" by (simp add: keeps_def onExitPath_def)
  note l = runLoop_exit [OF assms(4,5) k, of n]
  have 4: "list_all (\<lambda>c. c \<noteq> Switch \<and> c \<noteq> PullFullState)
      (calls_since ?s3 (state_of (runLoop e n ?s3)))"
    using l by (simp add: extends_calls)
  have 5: "count_list (calls_since ?s3 (state_of (runLoop e n ?s3))) DecLiveTasks =
      (if isDone (runLoop e n ?s3) then 1 else 0)"
    using l by simp
  have 6: "keeps notStopped s \<and> preserved e notStopped \<and> exitAdvances e \<and> 3 \<le> n \<longrightarrow>
       isDone (runLoop e n ?s3)"
  proof
    assume h: "keeps notStopped s \<and> preserved e notStopped \<and> exitAdvances e \<and> 3 \<le> n"
    then have ns: "preserved e notStopped" and ad: "exitAdvances e" and n: "3 \<le> n"
      and k0: "keeps notStopped s" by simp_all
    have "keeps notStopped (snd (runApp_execute e s))"
      using ns k0 by (rule runApp_execute_keeps)
    then have k3: "keeps notStopped ?s3" by (simp add: keeps_def notStopped_def)
    have rs: "runState (snd ?s3) = Some RunExit" by simp
    have xp: "exitPath RunExit" by simp
    have le: "exitRank RunExit \<le> n" using n by simp
    show "isDone (runLoop e n ?s3)"
      by (rule runLoop_exit_done [OF ns ad k3 rs xp le])
  qed
  from 1 2 3 4 5 6 show ?thesis by blast
qed
lemma env0_preserved:
  "effect e = (\<lambda>s c. snd s) \<Longrightarrow> preserved e P"
  by (simp add: preserved_def keeps_def)

lemma env0_exitAdvances:
  "execute_ret e = execute_ret env0 \<Longrightarrow> exitAdvances e"
  unfolding exitAdvances_def
  by (auto simp: env0_def split: option.splits elim: exitPath.elims)

lemma env0_exitStays:
  "execute_ret e = execute_ret env0 \<Longrightarrow> exitStays e"
  unfolding exitStays_def
  by (auto simp: env0_def keeps_def onExitPath_def split: option.splits if_splits
      elim: exitPath.elims)

theorem pull_failure_exits_task_witness:
  "atLine180 (env0\<lparr>PullFullState_ret := (\<lambda>s. Some (ErrOther 5))\<rparr>)
      ([], task0\<lparr>haveSyscallReturn := True\<rparr>) =
     Some ([(Interrupted, task0\<lparr>haveSyscallReturn := True\<rparr>)], task0\<lparr>haveSyscallReturn := True\<rparr>) \<and>
   preserved (env0\<lparr>PullFullState_ret := (\<lambda>s. Some (ErrOther 5))\<rparr>) onExitPath \<and>
   exitStays (env0\<lparr>PullFullState_ret := (\<lambda>s. Some (ErrOther 5))\<rparr>) \<and>
   preserved (env0\<lparr>PullFullState_ret := (\<lambda>s. Some (ErrOther 5))\<rparr>) notStopped \<and>
   exitAdvances (env0\<lparr>PullFullState_ret := (\<lambda>s. Some (ErrOther 5))\<rparr>) \<and>
   runApp_execute (env0\<lparr>PullFullState_ret := (\<lambda>s. Some (ErrOther 5))\<rparr>)
      ([], task0\<lparr>haveSyscallReturn := True\<rparr>) =
     (Some RunExit,
      [(Interrupted, task0\<lparr>haveSyscallReturn := True\<rparr>),
       (PullFullState, task0\<lparr>haveSyscallReturn := True\<rparr>),
       (Warningf, task0\<lparr>haveSyscallReturn := True\<rparr>),
       (PrepareExit (WaitStatusExit 14), task0\<lparr>haveSyscallReturn := True\<rparr>)],
      task0\<lparr>haveSyscallReturn := True\<rparr>) \<and>
   isDone (runLoop (env0\<lparr>PullFullState_ret := (\<lambda>s. Some (ErrOther 5))\<rparr>) 3
      (assign (\<lambda>t. t\<lparr>runState := Some RunExit\<rparr>)
         (snd (runApp_execute (env0\<lparr>PullFullState_ret := (\<lambda>s. Some (ErrOther 5))\<rparr>)
                 ([], task0\<lparr>haveSyscallReturn := True\<rparr>))))) \<and>
   count_list
     (calls_since
        (assign (\<lambda>t. t\<lparr>runState := Some RunExit\<rparr>)
           (snd (runApp_execute (env0\<lparr>PullFullState_ret := (\<lambda>s. Some (ErrOther 5))\<rparr>)
                   ([], task0\<lparr>haveSyscallReturn := True\<rparr>))))
        (state_of (runLoop (env0\<lparr>PullFullState_ret := (\<lambda>s. Some (ErrOther 5))\<rparr>) 3
           (assign (\<lambda>t. t\<lparr>runState := Some RunExit\<rparr>)
              (snd (runApp_execute (env0\<lparr>PullFullState_ret := (\<lambda>s. Some (ErrOther 5))\<rparr>)
                      ([], task0\<lparr>haveSyscallReturn := True\<rparr>)))))))
     DecLiveTasks = 1"
proof -
  let ?e = "env0\<lparr>PullFullState_ret := (\<lambda>s. Some (ErrOther 5))\<rparr>"
  let ?t = "task0\<lparr>haveSyscallReturn := True\<rparr>"
  let ?s1 = "([(Interrupted, ?t)], ?t)"
  have a: "atLine180 ?e ([], ?t) = Some ?s1"
    by (simp add: atLine180_def taskWorkStep_def env0_def task0_def invoke_def)
  have b: "haveSyscallReturn (snd ?s1)" by simp
  have c: "PullFullState_ret ?e ?s1 = Some (ErrOther 5)" by simp
  have d: "preserved ?e onExitPath" by (rule env0_preserved) (simp add: env0_def)
  have f: "exitStays ?e" by (rule env0_exitStays) (simp add: env0_def)
  have g: "preserved ?e notStopped" by (rule env0_preserved) (simp add: env0_def)
  have h: "exitAdvances ?e" by (rule env0_exitAdvances) (simp add: env0_def)
  have i: "keeps notStopped ([], ?t)" by (simp add: keeps_def notStopped_def task0_def)
  have j: "(3::nat) \<le> 3" by simp
  have r: "snd (restartStep ?e ?s1) =
      ([(Interrupted, ?t), (PullFullState, ?t), (Warningf, ?t),
        (PrepareExit (WaitStatusExit 14), ?t)], ?t)"
    by (simp add: restartStep_def invoke_def observe_def env0_def int32_def)
  note T = pull_failure_exits_task [OF a b c d f, of 3]
  have p1: "runApp_execute ?e ([], ?t) =
      (Some RunExit,
       [(Interrupted, ?t), (PullFullState, ?t), (Warningf, ?t),
        (PrepareExit (WaitStatusExit 14), ?t)], ?t)"
    using T r by simp
  have p2: "isDone (runLoop ?e 3
      (assign (\<lambda>t. t\<lparr>runState := Some RunExit\<rparr>) (snd (runApp_execute ?e ([], ?t)))))"
    using T g h i j by blast
  have p3: "count_list
     (calls_since
        (assign (\<lambda>t. t\<lparr>runState := Some RunExit\<rparr>) (snd (runApp_execute ?e ([], ?t))))
        (state_of (runLoop ?e 3
           (assign (\<lambda>t. t\<lparr>runState := Some RunExit\<rparr>) (snd (runApp_execute ?e ([], ?t)))))))
     DecLiveTasks = 1"
  proof -
    from T have "count_list
       (calls_since
          (assign (\<lambda>t. t\<lparr>runState := Some RunExit\<rparr>) (snd (runApp_execute ?e ([], ?t))))
          (state_of (runLoop ?e 3
             (assign (\<lambda>t. t\<lparr>runState := Some RunExit\<rparr>) (snd (runApp_execute ?e ([], ?t)))))))
       DecLiveTasks =
       (if isDone (runLoop ?e 3
          (assign (\<lambda>t. t\<lparr>runState := Some RunExit\<rparr>) (snd (runApp_execute ?e ([], ?t)))))
        then 1 else 0)"
      by (elim conjE)
    with p2 show ?thesis by simp
  qed
  from a d f g h p1 p2 p3 show ?thesis by blast
qed

subsection \<open>The stop gate\<close>

lemma gate_append: "gate (h @ evs) = foldl gate_step (gate h) evs"
  by (simp add: gate_def)

lemma gate_stays:
  assumes "\<And>c t. P c \<Longrightarrow> gate_step (Some p) (c, t) = Some p"
  shows "list_all (\<lambda>x. P (fst x)) evs \<Longrightarrow> foldl gate_step (Some p) evs = Some p"
  by (induction evs) (auto simp: assms)

lemma gate_extends:
  assumes "extends P s s'"
    and "\<And>c t. P c \<Longrightarrow> gate_step (Some p) (c, t) = Some p"
    and "gate (fst s) = Some p"
  shows "gate (fst s') = Some p"
proof -
  from extendsD [OF assms(1)]
  have a: "fst s' = fst s @ since s s'" and b: "list_all (\<lambda>x. P (fst x)) (since s s')"
    by simp_all
  have "gate (fst s') = foldl gate_step (gate (fst s)) (since s s')"
    by (subst a) (simp add: gate_def)
  also have "\<dots> = Some p"
    using gate_stays [of P p, OF assms(2) b] assms(3) by simp
  finally show ?thesis .
qed

lemma appCall_InExec: "appCall c \<Longrightarrow> gate_step (Some InExec) (c, t) = Some InExec"
  by (cases c) simp_all

lemma teardownCall_InExec: "teardownCall c \<Longrightarrow> gate_step (Some InExec) (c, t) = Some InExec"
  by (cases c) simp_all

lemma waitLoop_gate:
  assumes pr: "preserved e nonNegative"
  shows "gate (fst s) = Some Waiting \<Longrightarrow> keeps nonNegative s \<Longrightarrow>
    (case waitLoop e n s of
       Done s' \<Rightarrow> gate (fst s') = Some Waiting \<and> stopCount (snd s') = 0
     | Blocked s' \<Rightarrow> blockedInWait (Blocked s')
     | OutOfFuel s' \<Rightarrow> gate (fst s') = Some Waiting
     | Panicked s' \<Rightarrow> False)"
proof (induction n arbitrary: s)
  case 0
  then show ?case by (auto simp: keeps_def nonNegative_def)
next
  case (Suc n)
  show ?case
  proof (cases "stopCount (snd s) > 0")
    case False
    then show ?thesis using Suc.prems by (auto simp: keeps_def nonNegative_def)
  next
    case True
    show ?thesis
    proof (cases "EndStopCondWait_ret e s")
      case False
      then show ?thesis using True Suc.prems(1) by (simp add: gate_append)
    next
      case w: True
      have g: "gate (fst (invoke e EndStopCondWait s)) = Some Waiting"
        using True Suc.prems(1) by (simp add: gate_append)
      have k: "keeps nonNegative (invoke e EndStopCondWait s)"
        using pr Suc.prems(2) by (rule keeps_invoke)
      from Suc.IH [OF g k] show ?thesis using True w by simp
    qed
  qed
qed

lemma doStop_gate:
  assumes pr: "preserved e nonNegative"
    and g: "gate (fst s) = Some p" "p = Idle \<or> p = InExec"
    and k: "keeps nonNegative s"
  shows "case doStop e n s of
       Done s' \<Rightarrow> (gate (fst s') = Some Checking \<and> stopCount (snd s') = 0) \<or>
                   gate (fst s') = Some Open
     | Blocked s' \<Rightarrow> blockedInWait (Blocked s')
     | OutOfFuel s' \<Rightarrow> gate (fst s') = Some Waiting
     | Panicked s' \<Rightarrow> False"
proof (cases "stopCount (snd s) = 0")
  case True
  then show ?thesis using g by (auto simp: doStop_def gate_append)
next
  case False
  let ?s4 = "invoke e (GoroutineStoppedAdd (- 1))
      (invoke e (RunningGoroutinesAdd (- 1))
        (invoke e (AccountTaskGoroutineEnter TaskGoroutineStopped)
          (invoke e Deactivate (observe DoStop s))))"
  have g4: "gate (fst ?s4) = Some Waiting" using g False by (auto simp: gate_append)
  have k4: "keeps nonNegative ?s4" using pr k by (simp add: keeps_invoke)
  note w = waitLoop_gate [OF pr g4 k4, of n]
  show ?thesis
  proof (cases "waitLoop e n ?s4")
    case (Done s5)
    then have "gate (fst s5) = Some Waiting" "stopCount (snd s5) = 0" using w by simp_all
    then have "gate (fst (invoke e Activate
                      (invoke e (AccountTaskGoroutineLeave TaskGoroutineStopped)
                        (invoke e (RunningGoroutinesAdd 1)
                          (invoke e (GoroutineStoppedAdd 1) s5))))) = Some Open"
      by (simp add: gate_append)
    then show ?thesis using False Done by (simp add: doStop_def Let_def)
  next
    case (Blocked s5)
    then show ?thesis using False w by (simp add: doStop_def Let_def)
  next
    case (OutOfFuel s5)
    then show ?thesis using False w by (simp add: doStop_def Let_def)
  next
    case (Panicked s5)
    then show ?thesis using w by simp
  qed
qed

lemma execute_gate:
  assumes "(gate (fst s) = Some Checking \<and> stopCount (snd s) = 0) \<or> gate (fst s) = Some Open"
  shows "gate (fst (snd (execute e r s))) = Some InExec"
proof (cases "r = RunApp")
  case True
  have ob: "gate (fst (observe (ExecuteState RunApp) s)) = Some InExec"
    using assms by (auto simp: gate_append)
  have ex: "extends appCall (observe (ExecuteState RunApp) s)
      (snd (runApp_execute e (observe (ExecuteState RunApp) s)))"
    by (rule runApp_execute_extends)
  have "gate (fst (snd (runApp_execute e (observe (ExecuteState RunApp) s)))) = Some InExec"
    by (rule gate_extends [OF ex _ ob]) (rule appCall_InExec)
  then show ?thesis using True by (simp add: execute_def)
next
  case False
  then show ?thesis using assms by (auto simp: execute_def gate_append)
qed

lemma execute_keeps:
  assumes "preserved e P" and "keeps P s"
  shows "keeps P (snd (execute e r s))"
  using assms by (simp add: execute_def runApp_execute_keeps keeps_invoke)

lemma runLoop_gate:
  assumes pr: "preserved e nonNegative"
  shows "gate (fst s) = Some p \<Longrightarrow> p = Idle \<or> p = InExec \<Longrightarrow> keeps nonNegative s \<Longrightarrow>
    gate (fst (state_of (runLoop e n s))) \<noteq> None \<and> blockedInWait (runLoop e n s)"
proof (induction n arbitrary: s p)
  case 0
  then show ?case by simp
next
  case (Suc n)
  note d = doStop_gate [OF pr Suc.prems(1,2,3), of n]
  have kd: "keeps nonNegative (state_of (doStop e n s))"
    using pr Suc.prems(3) by (rule doStop_keeps)
  show ?case
  proof (cases "doStop e n s")
    case (Done s1)
    then have g1: "(gate (fst s1) = Some Checking \<and> stopCount (snd s1) = 0) \<or>
        gate (fst s1) = Some Open" using d by simp
    from kd Done have k1: "keeps nonNegative s1" by simp
    show ?thesis
    proof (cases "runState (snd s1)")
      case None
      then have "runLoop e (Suc n) s = Panicked s1" using Done by simp
      then show ?thesis using g1 by auto
    next
      case (Some r)
      obtain nx s2 where x: "execute e r s1 = (nx, s2)" by (cases "execute e r s1")
      let ?s3 = "assign (\<lambda>t. t\<lparr>runState := nx\<rparr>) s2"
      have g2: "gate (fst s2) = Some InExec" using execute_gate [OF g1, of e r] x by simp
      have k2: "keeps nonNegative s2" using execute_keeps [OF pr k1, of r] x by simp
      have g3: "gate (fst ?s3) = Some InExec" using g2 by simp
      have k3: "keeps nonNegative ?s3" using k2 by (simp add: keeps_def nonNegative_def)
      show ?thesis
      proof (cases nx)
        case None
        have te: "extends teardownCall ?s3 (teardown e ?s3)"
          by (rule teardown_extends)
        have "gate (fst (teardown e ?s3)) = Some InExec"
          by (rule gate_extends [OF te _ g3]) (rule teardownCall_InExec)
        then show ?thesis using Done Some x None by simp
      next
        case nx: (Some r')
        have "gate (fst (state_of (runLoop e n ?s3))) \<noteq> None \<and>
            blockedInWait (runLoop e n ?s3)"
          by (rule Suc.IH [OF g3 _ k3]) simp
        then show ?thesis using Done Some x nx by simp
      qed
    qed
  next
    case (Blocked s1)
    then show ?thesis using d by simp
  next
    case (OutOfFuel s1)
    then show ?thesis using d by simp
  next
    case (Panicked s1)
    then show ?thesis using d by simp
  qed
qed

text \<open>
  Claim C1. In every run of \<^verbatim>\<open>Task.run\<close>, however long and however it ends, with a stop
  count that no call makes negative: every call of \<^verbatim>\<open>execute\<close>, the first one included,
  comes after exactly one \<^verbatim>\<open>doStop\<close> of its own, which read a stop count of zero, at once
  or on leaving the wait; \<^verbatim>\<open>doStop\<close> waits on \<^verbatim>\<open>endStopCond\<close> only while the stop count
  is positive and between it and \<^verbatim>\<open>execute\<close> makes no call but its own; the platform is
  switched into only inside \<^verbatim>\<open>execute\<close>. A task goroutine that waits for ever has its
  history end in that wait.
\<close>

theorem stop_gate_before_every_transition:
  assumes "preserved e nonNegative" and "0 \<le> stopCount t"
  shows "gate (fst (state_of (run e n t))) \<noteq> None \<and> blockedInWait (run e n t)"
proof -
  let ?s = "invoke e InterruptSelf (invoke e Activate ([], t))"
  have g: "gate (fst ?s) = Some Idle" by (simp add: gate_def)
  have "keeps nonNegative ([], t)" using assms(2) by (simp add: keeps_def nonNegative_def)
  then have k: "keeps nonNegative ?s" using assms(1) by (simp add: keeps_invoke)
  show ?thesis
    unfolding run_def by (rule runLoop_gate [OF assms(1) g _ k]) simp
qed

theorem stop_gate_before_every_transition_witness:
  "preserved (env0\<lparr>effect := (\<lambda>s c. if c = EndStopCondWait then (snd s)\<lparr>stopCount := 0\<rparr> else snd s)\<rparr>)
      nonNegative \<and>
   0 \<le> stopCount (task0\<lparr>stopCount := 1\<rparr>) \<and>
   gate (fst (state_of (run
      (env0\<lparr>effect := (\<lambda>s c. if c = EndStopCondWait then (snd s)\<lparr>stopCount := 0\<rparr> else snd s)\<rparr>)
      2 (task0\<lparr>stopCount := 1\<rparr>)))) \<noteq> None \<and>
   blockedInWait (run
      (env0\<lparr>effect := (\<lambda>s c. if c = EndStopCondWait then (snd s)\<lparr>stopCount := 0\<rparr> else snd s)\<rparr>)
      2 (task0\<lparr>stopCount := 1\<rparr>)) \<and>
   map fst (fst (state_of (run
      (env0\<lparr>effect := (\<lambda>s c. if c = EndStopCondWait then (snd s)\<lparr>stopCount := 0\<rparr> else snd s)\<rparr>)
      2 (task0\<lparr>stopCount := 1\<rparr>)))) =
     [Activate, InterruptSelf, DoStop, Deactivate,
      AccountTaskGoroutineEnter TaskGoroutineStopped,
      RunningGoroutinesAdd (- 1), GoroutineStoppedAdd (- 1), EndStopCondWait,
      GoroutineStoppedAdd 1, RunningGoroutinesAdd 1,
      AccountTaskGoroutineLeave TaskGoroutineStopped, Activate,
      ExecuteState RunApp, Interrupted,
      AccountTaskGoroutineEnter TaskGoroutineRunningApp, Switch,
      AccountTaskGoroutineLeave TaskGoroutineRunningApp, DoSyscall, DoStop,
      ExecuteState RunApp, Interrupted,
      AccountTaskGoroutineEnter TaskGoroutineRunningApp, Switch,
      AccountTaskGoroutineLeave TaskGoroutineRunningApp, DoSyscall]"
proof -
  let ?e = "env0\<lparr>effect := (\<lambda>s c. if c = EndStopCondWait then (snd s)\<lparr>stopCount := 0\<rparr> else snd s)\<rparr>"
  let ?t = "task0\<lparr>stopCount := 1\<rparr>"
  have p: "preserved ?e nonNegative"
    by (simp add: preserved_def keeps_def nonNegative_def)
  have q: "0 \<le> stopCount ?t" by simp
  have h: "map fst (fst (state_of (run ?e 2 ?t))) =
     [Activate, InterruptSelf, DoStop, Deactivate,
      AccountTaskGoroutineEnter TaskGoroutineStopped,
      RunningGoroutinesAdd (- 1), GoroutineStoppedAdd (- 1), EndStopCondWait,
      GoroutineStoppedAdd 1, RunningGoroutinesAdd 1,
      AccountTaskGoroutineLeave TaskGoroutineStopped, Activate,
      ExecuteState RunApp, Interrupted,
      AccountTaskGoroutineEnter TaskGoroutineRunningApp, Switch,
      AccountTaskGoroutineLeave TaskGoroutineRunningApp, DoSyscall, DoStop,
      ExecuteState RunApp, Interrupted,
      AccountTaskGoroutineEnter TaskGoroutineRunningApp, Switch,
      AccountTaskGoroutineLeave TaskGoroutineRunningApp, DoSyscall]"
    by code_simp
  from stop_gate_before_every_transition [OF p q, of 2] p q h show ?thesis by blast
qed

end
